theory Spec2Isabelle
  imports Main
begin

section \<open>Mesh topology data\<close>

text \<open>
  Modelled from the spec: the CSR incidence store (class MeshConnectivity) is not part of
  the sources. The spec (4.1) describes it as an offsets array plus a flat values
  array, the neighbours of source entity \<open>i\<close> being the slice between two offsets; here a
  store is the list of its rows. \<open>size()\<close> is the number of rows (the spec's
  \<open>size() -> N_d0\<close>), and a store is absent exactly when its size is zero, which is how the
  algorithms test it (\<open>connectivity.size() > 0\<close>).
\<close>

type_synonym connectivity = "nat list list"

definition conn_size :: "connectivity \<Rightarrow> nat" where
  "conn_size c = length c"

text \<open>
  Modelled from the spec: the topology table (class MeshTopology, spec 4.2) and the cell type
  (class CellType, spec 4.3) are not part of the sources either. The table holds the
  topological dimension, the entity count of every dimension (zero when unknown) and one
  store per pair of dimensions; the cell type is the table \<open>local_entities(T, d)\<close> of local
  vertex-index tuples. Indices and counts are the source's \<open>uint\<close>; they are bounded by the
  lengths of arrays held in memory, so they are natural numbers here.
\<close>

record mesh =
  tdim :: nat
  num_entities :: "nat \<Rightarrow> nat"
  conn :: "nat \<times> nat \<Rightarrow> connectivity"
  cell_entities :: "nat \<Rightarrow> nat list list"

text \<open>
  Modelled from the spec: the iterators (class MeshEntityIterator, spec 4.8) are not part of
  the sources. Iterating over the entities of dimension \<open>d\<close> runs through the indices below
  the count of \<open>d\<close>, in ascending order; iterating over the entities of dimension \<open>d1\<close>
  connected to an entity \<open>e\<close> of dimension \<open>d0\<close> runs through row \<open>e\<close> of the store
  \<open>(d0, d1)\<close>, and an entity without a row there is out of range. The iterator's request
  for a store that is absent does not arise in the algorithms below: the transpose and the
  intersection assert that the stores they read are present, and entity synthesis reads
  the store \<open>(D, D)\<close> right after \<open>compute_connectivity(D, D)\<close> has returned, when it is
  present if there is any cell (lemma \<open>cell_adjacency_present\<close>).
\<close>

text \<open>
  Fatal conditions. \<open>dolfin_error\<close> throws; \<open>dolfin_assert\<close> and the store's range and
  double-initialisation checks are the spec's fatal programmer errors (spec 4.1 and 7). An
  aborted call carries the mesh as it was when the error was raised.
\<close>

datatype error =
    ConnectivityMissing nat
  | EntitiesMissing nat
  | AssertionFailed
  | OutOfRange
  | DoubleInitialization

type_synonym 'a result = "(error \<times> mesh) + 'a"

text \<open>Modelled from the spec: \<open>topology.init(dim, size)\<close> records the entity count (spec 4.2).\<close>

definition topology_init :: "mesh \<Rightarrow> nat \<Rightarrow> nat \<Rightarrow> mesh" where
  "topology_init m d n = m\<lparr>num_entities := (num_entities m)(d := n)\<rparr>"

text \<open>
  Modelled from the spec: \<open>set_conn(d0, d1, store)\<close> requires the store to be absent and
  makes it present; overwriting a present incidence is fatal (spec 4.2 and 7).
\<close>

definition set_conn :: "mesh \<Rightarrow> nat \<times> nat \<Rightarrow> connectivity \<Rightarrow> mesh result" where
  "set_conn m k rows =
     (if conn_size (conn m k) > 0 then Inl (DoubleInitialization, m)
      else Inr (m\<lparr>conn := (conn m)(k := rows)\<rparr>))"

text \<open>
  Modelled from the spec: \<open>init_from_sizes\<close> allocates one row per entry of \<open>sizes\<close>, of that
  length (spec 4.1); the values are not yet written, zero here.
\<close>

definition init_sizes :: "nat list \<Rightarrow> connectivity" where
  "init_sizes sizes = map (\<lambda>n. replicate n 0) sizes"

text \<open>
  Modelled from the spec: \<open>create_entities\<close> applies the cell type's table of local
  vertex-index tuples to the vertices of one cell (spec 4.3 and 4.4, step 4). A local index
  beyond the vertices of the cell is a read out of range (\<open>None\<close>).
\<close>

definition create_entities :: "mesh \<Rightarrow> nat \<Rightarrow> nat list \<Rightarrow> nat list list option" where
  "create_entities m d vertices =
     (if \<forall>t \<in> set (cell_entities m d). \<forall>i \<in> set t. i < length vertices
      then Some (map (map (\<lambda>i. vertices ! i)) (cell_entities m d))
      else None)"

section \<open>Vertex containment\<close>

text \<open>The inner loop of \<open>contains\<close>: scan \<open>v0\<close> for one vertex, stopping at the first hit.\<close>

fun found_in :: "nat list \<Rightarrow> nat \<Rightarrow> bool" where
  "found_in [] x = False"
| "found_in (y # v0) x = (if y = x then True else found_in v0 x)"

text \<open>\<open>contains(v0, n0, v1, n1)\<close>: every vertex of \<open>v1\<close> is found in \<open>v0\<close>.\<close>

fun contains :: "nat list \<Rightarrow> nat list \<Rightarrow> bool" where
  "contains v0 [] = True"
| "contains v0 (x # v1) = (if \<not> found_in v0 x then False else contains v0 v1)"

text \<open>
  \<open>contains(MeshEntity& e0, MeshEntity& e1)\<close> reads the vertices of both entities through
  the stores \<open>(d0, 0)\<close> and \<open>(d1, 0)\<close>; an entity without a row there has no vertex array and
  the assertions \<open>dolfin_assert(v0)\<close>, \<open>dolfin_assert(v1)\<close> fail (\<open>None\<close>).
\<close>

definition contains_entity :: "mesh \<Rightarrow> nat \<Rightarrow> nat \<Rightarrow> nat \<Rightarrow> nat \<Rightarrow> bool option" where
  "contains_entity m d0 e0 d1 e1 =
     (if e0 < length (conn m (d0, 0)) \<and> e1 < length (conn m (d1, 0))
      then Some (contains (conn m (d0, 0) ! e0) (conn m (d1, 0) ! e1))
      else None)"

section \<open>Entity synthesis: the cell loop of \<open>compute_entities\<close>\<close>

text \<open>The local variables of the new code in \<open>compute_entities\<close>.\<close>

record entity_state =
  connectivity_ce :: "nat list list"
  connectivity_ev :: "nat list list"
  ce_list :: "(nat \<times> nat list) list list"
  current_entity :: nat

text \<open>The scan of one previously visited cell's list for an equal (sorted) vertex tuple.\<close>

fun find_other_entity :: "(nat \<times> nat list) list \<Rightarrow> nat list \<Rightarrow> nat option" where
  "find_other_entity [] entity = None"
| "find_other_entity (other_entity # c0_list) entity =
     (if snd other_entity = entity then Some (fst other_entity)
      else find_other_entity c0_list entity)"

text \<open>
  The loop over the cells \<open>c0\<close> connected to cell \<open>c\<close>: only cells of smaller index are
  looked at, and the first equal tuple ends the search (\<open>goto found\<close>).
\<close>

fun find_in_cells :: "(nat \<times> nat list) list list \<Rightarrow> nat \<Rightarrow> nat list \<Rightarrow> nat list \<Rightarrow> nat option" where
  "find_in_cells cel c [] entity = None"
| "find_in_cells cel c (c0 # cs) entity =
     (if c0 \<ge> c then find_in_cells cel c cs entity
      else case find_other_entity (cel ! c0) entity of
             Some i \<Rightarrow> Some i
           | None \<Rightarrow> find_in_cells cel c cs entity)"

text \<open>
  The body of the loop over the entities of cell \<open>c\<close>: the tuple is sorted in place, looked
  up, and either the index found is recorded for the cell or a new entity is created from
  the sorted tuple. The cells connected to \<open>c\<close> are row \<open>c\<close> of the store \<open>(D, D)\<close>; a cell
  without a row there is out of range. The sorted tuple is the one kept in \<open>ce_list\<close> and
  the one appended to \<open>connectivity_ev\<close>.
\<close>

definition entity_body :: "mesh \<Rightarrow> nat \<Rightarrow> nat list \<Rightarrow> entity_state \<Rightarrow> entity_state option" where
  "entity_body m c entity0 s =
     (let entity = sort entity0 in
      if c < length (conn m (tdim m, tdim m)) then
        (case find_in_cells (ce_list s) c (conn m (tdim m, tdim m) ! c) entity of
           Some i \<Rightarrow>
             Some (s\<lparr>connectivity_ce := (connectivity_ce s)[c := connectivity_ce s ! c @ [i]]\<rparr>)
         | None \<Rightarrow>
             Some (s\<lparr>ce_list := (ce_list s)[c := ce_list s ! c @ [(current_entity s, entity)]],
                    connectivity_ce :=
                      (connectivity_ce s)[c := connectivity_ce s ! c @ [current_entity s]],
                    connectivity_ev := connectivity_ev s @ [entity],
                    current_entity := current_entity s + 1\<rparr>))
      else None)"

text \<open>The loop over the entities created for cell \<open>c\<close>, in the order of the cell type.\<close>

fun entities_loop :: "mesh \<Rightarrow> nat \<Rightarrow> nat list list \<Rightarrow> entity_state \<Rightarrow> entity_state option" where
  "entities_loop m c [] s = Some s"
| "entities_loop m c (entity # entities) s =
     (case entity_body m c entity s of
        None \<Rightarrow> None
      | Some s' \<Rightarrow> entities_loop m c entities s')"

text \<open>
  The loop over all cells, in ascending order. \<open>c->entities(0)\<close> is row \<open>c\<close> of the store
  \<open>(D, 0)\<close>; \<open>dolfin_assert(vertices)\<close> fails for a cell without a row.
\<close>

fun cells_loop :: "mesh \<Rightarrow> nat \<Rightarrow> nat list \<Rightarrow> entity_state \<Rightarrow> error + entity_state" where
  "cells_loop m d [] s = Inr s"
| "cells_loop m d (c # cs) s =
     (if c < length (conn m (tdim m, 0)) then
        (case create_entities m d (conn m (tdim m, 0) ! c) of
           None \<Rightarrow> Inl OutOfRange
         | Some entities \<Rightarrow>
             (case entities_loop m c entities s of
                None \<Rightarrow> Inl OutOfRange
              | Some s' \<Rightarrow> cells_loop m d cs s'))
      else Inl AssertionFailed)"

text \<open>The local variables as they are declared before the cell loop.\<close>

definition initial_state :: "mesh \<Rightarrow> entity_state" where
  "initial_state m =
     \<lparr>connectivity_ce = replicate (num_entities m (tdim m)) [],
      connectivity_ev = [],
      ce_list = replicate (num_entities m (tdim m)) [],
      current_entity = 0\<rparr>"

text \<open>
  The end of \<open>compute_entities\<close>: the count is recorded, then the two stores are written,
  cell-to-entity first.
\<close>

definition store_entities :: "mesh \<Rightarrow> nat \<Rightarrow> entity_state \<Rightarrow> (nat \<times> mesh) result" where
  "store_entities m d s =
     (let m1 = topology_init m d (length (connectivity_ev s)) in
      case set_conn m1 (tdim m, d) (connectivity_ce s) of
        Inl e \<Rightarrow> Inl e
      | Inr m2 \<Rightarrow>
          (case set_conn m2 (d, 0) (connectivity_ev s) of
             Inl e \<Rightarrow> Inl e
           | Inr m3 \<Rightarrow> Inr (length (connectivity_ev s), m3)))"

text \<open>
  The new code of \<open>compute_entities\<close>, from the declarations after the call of
  \<open>compute_connectivity(D, D)\<close> to the end. The cell loop does not change the topology, so
  an error raised in it carries the mesh unchanged.
\<close>

definition build_entities :: "mesh \<Rightarrow> nat \<Rightarrow> (nat \<times> mesh) result" where
  "build_entities m d =
     (case cells_loop m d [0..<num_entities m (tdim m)] (initial_state m) of
        Inl e \<Rightarrow> Inl (e, m)
      | Inr s \<Rightarrow> store_entities m d s)"

section \<open>Transpose\<close>

text \<open>First pass, inner loop: \<open>tmp[e0->index()]++\<close> for every \<open>e0\<close> in the row of \<open>e1\<close>.\<close>

fun count_row :: "nat list \<Rightarrow> nat list \<Rightarrow> nat list option" where
  "count_row [] tmp = Some tmp"
| "count_row (e0 # es) tmp =
     (if e0 < length tmp then count_row es (tmp[e0 := tmp ! e0 + 1]) else None)"

text \<open>First pass, outer loop over the entities \<open>e1\<close> of dimension \<open>d1\<close>.\<close>

fun count_connections :: "connectivity \<Rightarrow> nat list \<Rightarrow> nat list \<Rightarrow> nat list option" where
  "count_connections c [] tmp = Some tmp"
| "count_connections c (e1 # es) tmp =
     (if e1 < length c then
        (case count_row (c ! e1) tmp of
           None \<Rightarrow> None
         | Some tmp' \<Rightarrow> count_connections c es tmp')
      else None)"

text \<open>
  Second pass, one step: \<open>connectivity.set(e0->index(), e1->index(), tmp[e0->index()]++)\<close>,
  where \<open>e0\<close> is read at position \<open>pos\<close> of row \<open>e1\<close> of the store \<open>(d1, d0)\<close> as it is now.
  Modelled from the spec: \<open>set(i, j, pos)\<close> writes position \<open>pos\<close> of row \<open>i\<close>, which must
  exist (spec 4.1).
\<close>

definition add_connection ::
  "nat \<Rightarrow> nat \<Rightarrow> nat \<Rightarrow> nat \<Rightarrow> nat list \<times> mesh \<Rightarrow> (nat list \<times> mesh) result" where
  "add_connection d0 d1 e1 pos tm =
     (let tmp = fst tm; m = snd tm;
          e0 = conn m (d1, d0) ! e1 ! pos;
          c = conn m (d0, d1)
      in if e0 < length tmp \<and> e0 < length c \<and> tmp ! e0 < length (c ! e0)
         then Inr (tmp[e0 := tmp ! e0 + 1],
                   m\<lparr>conn := (conn m)((d0, d1) := c[e0 := (c ! e0)[tmp ! e0 := e1]])\<rparr>)
         else Inl (OutOfRange, m))"

text \<open>Second pass, inner loop over the positions of row \<open>e1\<close>, and outer loop over \<open>e1\<close>.\<close>

fun add_row :: "nat \<Rightarrow> nat \<Rightarrow> nat \<Rightarrow> nat list \<Rightarrow> nat list \<times> mesh \<Rightarrow> (nat list \<times> mesh) result" where
  "add_row d0 d1 e1 [] tm = Inr tm"
| "add_row d0 d1 e1 (pos # ps) tm =
     (case add_connection d0 d1 e1 pos tm of
        Inl e \<Rightarrow> Inl e
      | Inr tm' \<Rightarrow> add_row d0 d1 e1 ps tm')"

fun add_connections :: "nat \<Rightarrow> nat \<Rightarrow> nat list \<Rightarrow> nat list \<times> mesh \<Rightarrow> (nat list \<times> mesh) result" where
  "add_connections d0 d1 [] tm = Inr tm"
| "add_connections d0 d1 (e1 # es) tm =
     (if e1 < length (conn (snd tm) (d1, d0)) then
        (case add_row d0 d1 e1 [0..<length (conn (snd tm) (d1, d0) ! e1)] tm of
           Inl e \<Rightarrow> Inl e
         | Inr tm' \<Rightarrow> add_connections d0 d1 es tm')
      else Inl (OutOfRange, snd tm))"

text \<open>
  \<open>compute_from_transpose\<close>: the assertion, the first pass from a zero-filled \<open>tmp\<close>,
  \<open>connectivity.init(tmp)\<close>, and the second pass from \<open>tmp\<close> filled with zeros again.
\<close>

definition compute_from_transpose :: "mesh \<Rightarrow> nat \<Rightarrow> nat \<Rightarrow> mesh result" where
  "compute_from_transpose m d0 d1 =
     (if \<not> conn_size (conn m (d1, d0)) > 0 then Inl (AssertionFailed, m)
      else
        case count_connections (conn m (d1, d0)) [0..<num_entities m d1]
               (replicate (num_entities m d0) 0) of
          None \<Rightarrow> Inl (OutOfRange, m)
        | Some tmp \<Rightarrow>
            (case set_conn m (d0, d1) (init_sizes tmp) of
               Inl e \<Rightarrow> Inl e
             | Inr m1 \<Rightarrow>
                 (case add_connections d0 d1 [0..<num_entities m1 d1]
                         (replicate (length tmp) 0, m1) of
                    Inl e \<Rightarrow> Inl e
                  | Inr tm \<Rightarrow> Inr (snd tm))))"

section \<open>Intersection\<close>

text \<open>The loop over the entities \<open>e1\<close> of dimension \<open>d1\<close> connected to one entity \<open>e\<close>.\<close>

fun intersect_inner :: "mesh \<Rightarrow> nat \<Rightarrow> nat \<Rightarrow> nat \<Rightarrow> nat list \<Rightarrow> nat list \<Rightarrow> nat list option" where
  "intersect_inner m d0 d1 e0 [] entities = Some entities"
| "intersect_inner m d0 d1 e0 (e1 # es) entities =
     (if d0 = d1 then
        intersect_inner m d0 d1 e0 es
          (if e0 \<noteq> e1 \<and> e1 \<notin> set entities then entities @ [e1] else entities)
      else
        case contains_entity m d0 e0 d1 e1 of
          None \<Rightarrow> None
        | Some b \<Rightarrow>
            intersect_inner m d0 d1 e0 es
              (if b \<and> e1 \<notin> set entities then entities @ [e1] else entities))"

text \<open>The loop over the entities \<open>e\<close> of dimension \<open>d\<close> connected to \<open>e0\<close>.\<close>

fun intersect_outer ::
  "mesh \<Rightarrow> nat \<Rightarrow> nat \<Rightarrow> nat \<Rightarrow> nat \<Rightarrow> nat list \<Rightarrow> nat list \<Rightarrow> nat list option" where
  "intersect_outer m d0 d1 d e0 [] entities = Some entities"
| "intersect_outer m d0 d1 d e0 (e # es) entities =
     (if e < length (conn m (d, d1)) then
        (case intersect_inner m d0 d1 e0 (conn m (d, d1) ! e) entities of
           None \<Rightarrow> None
         | Some entities' \<Rightarrow> intersect_outer m d0 d1 d e0 es entities')
      else None)"

text \<open>The loop over all entities \<open>e0\<close> of dimension \<open>d0\<close>, one row each.\<close>

fun intersect_rows :: "mesh \<Rightarrow> nat \<Rightarrow> nat \<Rightarrow> nat \<Rightarrow> nat list \<Rightarrow> nat list list option" where
  "intersect_rows m d0 d1 d [] = Some []"
| "intersect_rows m d0 d1 d (e0 # es) =
     (if e0 < length (conn m (d0, d)) then
        (case intersect_outer m d0 d1 d e0 (conn m (d0, d) ! e0) [] of
           None \<Rightarrow> None
         | Some entities \<Rightarrow>
             (case intersect_rows m d0 d1 d es of
                None \<Rightarrow> None
              | Some rows \<Rightarrow> Some (entities # rows)))
      else None)"

text \<open>
  \<open>compute_from_intersection\<close>: the three assertions, the rows, and the copy to the store.
  (\<open>max_size\<close> only sizes a reservation.)
\<close>

definition compute_from_intersection :: "mesh \<Rightarrow> nat \<Rightarrow> nat \<Rightarrow> nat \<Rightarrow> mesh result" where
  "compute_from_intersection m d0 d1 d =
     (if \<not> d0 \<ge> d1 then Inl (AssertionFailed, m)
      else if \<not> conn_size (conn m (d0, d)) > 0 then Inl (AssertionFailed, m)
      else if \<not> conn_size (conn m (d, d1)) > 0 then Inl (AssertionFailed, m)
      else
        case intersect_rows m d0 d1 d [0..<num_entities m d0] of
          None \<Rightarrow> Inl (OutOfRange, m)
        | Some connectivity \<Rightarrow> set_conn m (d0, d1) connectivity)"

section \<open>The strategist and entity synthesis\<close>

text \<open>
  \<open>compute_entities\<close> and \<open>compute_connectivity\<close> call each other. The first argument
  bounds the depth of nested calls; \<open>None\<close> means that the bound was reached before the
  call returned. The trace log and the timers of the source are left out (spec 1: logging
  and timers are outside the core). The legacy functions \<open>count_entities\<close> and
  \<open>add_entities\<close> of the source are called from commented-out code only.
\<close>

text \<open>Sequencing: a call that did not return, or aborted, ends the calling function too.\<close>

definition and_then :: "'a result option \<Rightarrow> ('a \<Rightarrow> 'b result option) \<Rightarrow> 'b result option" where
  "and_then r f =
     (case r of None \<Rightarrow> None | Some (Inl e) \<Rightarrow> Some (Inl e) | Some (Inr a) \<Rightarrow> f a)"

fun compute_entities :: "nat \<Rightarrow> mesh \<Rightarrow> nat \<Rightarrow> (nat \<times> mesh) result option"
  and compute_connectivity :: "nat \<Rightarrow> mesh \<Rightarrow> nat \<Rightarrow> nat \<Rightarrow> mesh result option" where
  "compute_entities 0 m d = None"
| "compute_entities (Suc fuel) m d =
     (let ce = conn m (tdim m, d); ev = conn m (d, 0) in
      if num_entities m d > 0 then
        (if (conn_size ce = 0 \<and> d \<noteq> tdim m) \<or> (conn_size ev = 0 \<and> d \<noteq> 0)
         then Some (Inl (ConnectivityMissing d, m))
         else Some (Inr (num_entities m d, m)))
      else if conn_size ce > 0 \<or> conn_size ev > 0 then Some (Inl (EntitiesMissing d, m))
      else
        and_then (compute_connectivity fuel m (tdim m) (tdim m))
          (\<lambda>m1. Some (build_entities m1 d)))"
| "compute_connectivity 0 m d0 d1 = None"
| "compute_connectivity (Suc fuel) m d0 d1 =
     (if conn_size (conn m (d0, d1)) > 0 then Some (Inr m)
      else
        and_then (if num_entities m d0 = 0
                  then and_then (compute_entities fuel m d0) (\<lambda>r. Some (Inr (snd r)))
                  else Some (Inr m))
        (\<lambda>ma.
        and_then (if num_entities ma d1 = 0
                  then and_then (compute_entities fuel ma d1) (\<lambda>r. Some (Inr (snd r)))
                  else Some (Inr ma))
        (\<lambda>mb.
          if num_entities mb d0 = 0 \<and> num_entities mb d1 = 0 then Some (Inr mb)
          else if conn_size (conn mb (d0, d1)) > 0 then Some (Inr mb)
          else if d0 < d1 then
            and_then (compute_connectivity fuel mb d1 d0)
              (\<lambda>mc. Some (compute_from_transpose mc d0 d1))
          else if d0 > 0 \<and> d1 = 0 then Some (Inl (AssertionFailed, mb))
          else
            (let d = (if d0 = 0 \<and> d1 = 0 then tdim mb else 0) in
             and_then (compute_connectivity fuel mb d0 d)
               (\<lambda>mc. and_then (compute_connectivity fuel mc d d1)
                 (\<lambda>md. Some (compute_from_intersection md d0 d1 d)))))))"

declare compute_entities.simps [simp del] compute_connectivity.simps [simp del]

section \<open>Auxiliary definitions for the statements\<close>

text \<open>
  The two phases of \<open>compute_connectivity\<close> after a cache miss, named so that statements can
  refer to them: the entities of a dimension are computed when their count is zero, and the
  strategy is chosen from the two dimensions. Lemma \<open>compute_connectivity_Suc\<close> below shows
  that the function is built from exactly these two pieces.
\<close>

definition ensure_entities :: "nat \<Rightarrow> mesh \<Rightarrow> nat \<Rightarrow> mesh result option" where
  "ensure_entities fuel m d =
     (if num_entities m d = 0
      then and_then (compute_entities fuel m d) (\<lambda>r. Some (Inr (snd r)))
      else Some (Inr m))"

definition dispatch :: "nat \<Rightarrow> mesh \<Rightarrow> nat \<Rightarrow> nat \<Rightarrow> mesh result option" where
  "dispatch fuel mb d0 d1 =
     (if d0 < d1 then
        and_then (compute_connectivity fuel mb d1 d0)
          (\<lambda>mc. Some (compute_from_transpose mc d0 d1))
      else if d0 > 0 \<and> d1 = 0 then Some (Inl (AssertionFailed, mb))
      else
        (let d = (if d0 = 0 \<and> d1 = 0 then tdim mb else 0) in
         and_then (compute_connectivity fuel mb d0 d)
           (\<lambda>mc. and_then (compute_connectivity fuel mc d d1)
             (\<lambda>md. Some (compute_from_intersection md d0 d1 d)))))"

text \<open>
  The connectivity requests in the body of \<open>compute_connectivity(d0, d1)\<close>, in the order of
  the source: \<open>(d1, d0)\<close> before a transpose, \<open>(d0, d)\<close> and \<open>(d, d1)\<close> before an
  intersection, none when the assertion fails. \<open>issued\<close> gives the requests that a call
  really makes: none when it returns at one of the cache tests, at the test for empty
  dimensions, or when it does not get that far. Lemmas \<open>dispatch_requests\<close> and
  \<open>issued_dispatch\<close> below tie both to the function.
\<close>

definition requests :: "nat \<Rightarrow> nat \<Rightarrow> nat \<Rightarrow> (nat \<times> nat) list" where
  "requests D d0 d1 =
     (if d0 < d1 then [(d1, d0)]
      else if d0 > 0 \<and> d1 = 0 then []
      else (let d = (if d0 = 0 \<and> d1 = 0 then D else 0) in [(d0, d), (d, d1)]))"

definition issued :: "nat \<Rightarrow> mesh \<Rightarrow> nat \<Rightarrow> nat \<Rightarrow> (nat \<times> nat) list" where
  "issued fuel m d0 d1 =
     (if conn_size (conn m (d0, d1)) > 0 then []
      else
        case and_then (ensure_entities fuel m d0) (\<lambda>ma. ensure_entities fuel ma d1) of
          Some (Inr mb) \<Rightarrow>
            if num_entities mb d0 = 0 \<and> num_entities mb d1 = 0 then []
            else if conn_size (conn mb (d0, d1)) > 0 then []
            else requests (tdim mb) d0 d1
        | _ \<Rightarrow> [])"

text \<open>
  The topology table grows monotonically: \<open>extends m m'\<close> says that \<open>m'\<close> has the dimension
  and cell type of \<open>m\<close>, every count known in \<open>m\<close> and every store present in \<open>m\<close>, unchanged.
\<close>

definition extends :: "mesh \<Rightarrow> mesh \<Rightarrow> bool" where
  "extends m m' \<longleftrightarrow>
     tdim m' = tdim m \<and> cell_entities m' = cell_entities m
     \<and> (\<forall>d. num_entities m d > 0 \<longrightarrow> num_entities m' d = num_entities m d)
     \<and> (\<forall>k. conn_size (conn m k) > 0 \<longrightarrow> conn m' k = conn m k)"

text \<open>
  A mesh as its construction leaves it (spec 3 and 6): the numbers of cells and of vertices
  are known and the cell-vertex incidence \<open>(D, 0)\<close> is present.
\<close>

definition constructed :: "mesh \<Rightarrow> bool" where
  "constructed m \<longleftrightarrow>
     num_entities m (tdim m) > 0 \<and> num_entities m 0 > 0 \<and> conn_size (conn m (tdim m, 0)) > 0"

text \<open>The filter applied to a candidate \<open>e1\<close> of the source entity \<open>e0\<close>.\<close>

definition retained :: "mesh \<Rightarrow> nat \<Rightarrow> nat \<Rightarrow> nat \<Rightarrow> nat \<Rightarrow> bool" where
  "retained m d0 d1 e0 e1 \<longleftrightarrow>
     (if d0 = d1 then e1 \<noteq> e0
      else set (conn m (d1, 0) ! e1) \<subseteq> set (conn m (d0, 0) ! e0))"

section \<open>Auxiliary definitions for the transpose\<close>

text \<open>
  The pairs \<open>(e0, e1)\<close> visited by the two passes of the transpose, in the order of the
  iteration; the entities \<open>e1\<close> paired with one \<open>e0\<close>; the part of row \<open>i\<close> already written
  below its cursor; and what a run of the second pass over a list of pairs achieves.
\<close>

definition incidence_pairs :: "connectivity \<Rightarrow> nat list \<Rightarrow> (nat \<times> nat) list" where
  "incidence_pairs c e1s = concat (map (\<lambda>e1. map (\<lambda>e0. (e0, e1)) (c ! e1)) e1s)"

definition sources_of :: "(nat \<times> nat) list \<Rightarrow> nat \<Rightarrow> nat list" where
  "sources_of ps i = map snd (filter (\<lambda>p. fst p = i) ps)"

definition written :: "nat \<times> nat \<Rightarrow> nat list \<times> mesh \<Rightarrow> nat \<Rightarrow> nat list" where
  "written k tm i = take (fst tm ! i) (conn (snd tm) k ! i)"

definition progress :: "nat \<Rightarrow> nat \<Rightarrow> (nat \<times> nat) list \<Rightarrow> nat list \<times> mesh \<Rightarrow> nat list \<times> mesh \<Rightarrow> bool" where
  "progress d0 d1 ps tm tm' \<longleftrightarrow>
     conn (snd tm') (d1, d0) = conn (snd tm) (d1, d0)
     \<and> length (fst tm') = length (fst tm)
     \<and> length (conn (snd tm') (d0, d1)) = length (conn (snd tm) (d0, d1))
     \<and> (\<forall>i. length (conn (snd tm') (d0, d1) ! i) = length (conn (snd tm) (d0, d1) ! i))
     \<and> (\<forall>i < length (fst tm).
           fst tm' ! i = fst tm ! i + length (sources_of ps i)
           \<and> written (d0, d1) tm' i = written (d0, d1) tm i @ sources_of ps i)"

section \<open>Auxiliary definitions for entity synthesis\<close>

text \<open>
  The sorted candidate tuples of one cell, slot by slot; the candidates visited by the cell
  loop, in order, each with its cell; and the tuples visited for one cell.
\<close>

definition sorted_candidates :: "mesh \<Rightarrow> nat \<Rightarrow> nat \<Rightarrow> nat list list" where
  "sorted_candidates m d c =
     (case create_entities m d (conn m (tdim m, 0) ! c) of
        None \<Rightarrow> []
      | Some entities \<Rightarrow> map sort entities)"

definition tuples_of :: "(nat \<times> nat list) list \<Rightarrow> nat \<Rightarrow> nat list list" where
  "tuples_of visited c = map snd (filter (\<lambda>p. fst p = c) visited)"

definition visit_cell :: "mesh \<Rightarrow> nat \<Rightarrow> nat \<Rightarrow> (nat \<times> nat list) list" where
  "visit_cell m d c = map (\<lambda>t. (c, t)) (sorted_candidates m d c)"

definition visit_cells :: "mesh \<Rightarrow> nat \<Rightarrow> nat list \<Rightarrow> (nat \<times> nat list) list" where
  "visit_cells m d cs = concat (map (visit_cell m d) cs)"

text \<open>
  What the cell loop maintains. After the candidates \<open>visited\<close>: the next index is the
  number of entities created; the entities recorded for a cell carry, slot by slot, the
  tuples visited for it; and every pair kept in a cell's list is an entity created in that
  cell with its stored tuple.
\<close>

definition inv_basic :: "(nat \<times> nat list) list \<Rightarrow> nat \<Rightarrow> entity_state \<Rightarrow> bool" where
  "inv_basic visited N s \<longleftrightarrow>
     current_entity s = length (connectivity_ev s)
     \<and> length (connectivity_ce s) = N \<and> length (ce_list s) = N
     \<and> (\<forall>c < N. map (\<lambda>i. connectivity_ev s ! i) (connectivity_ce s ! c) = tuples_of visited c
                 \<and> (\<forall>i \<in> set (connectivity_ce s ! c). i < length (connectivity_ev s)))
     \<and> (\<forall>c < N. \<forall>p \<in> set (ce_list s ! c).
           fst p < length (connectivity_ev s) \<and> connectivity_ev s ! fst p = snd p
           \<and> (c, snd p) \<in> set visited)"

text \<open>
  With the search finding every earlier cell that holds an equal tuple, the loop further
  keeps the stored tuples pairwise different, each created in some cell, and together
  exactly the tuples visited.
\<close>

definition inv_full :: "(nat \<times> nat list) list \<Rightarrow> nat \<Rightarrow> entity_state \<Rightarrow> bool" where
  "inv_full visited N s \<longleftrightarrow>
     (\<forall>i < length (connectivity_ev s). \<exists>c < N. (i, connectivity_ev s ! i) \<in> set (ce_list s ! c))
     \<and> distinct (connectivity_ev s)
     \<and> set (connectivity_ev s) = snd ` set visited"

definition shared_found :: "mesh \<Rightarrow> nat \<Rightarrow> bool" where
  "shared_found m d \<longleftrightarrow>
     (\<forall>c < num_entities m (tdim m). \<forall>c0 < c.
        set (sorted_candidates m d c0) \<inter> set (sorted_candidates m d c) \<noteq> {}
        \<longrightarrow> c0 \<in> set (conn m (tdim m, tdim m) ! c))"

text \<open>
  The state a request finds the adjacency stores in: absent, or holding every cell of each
  vertex and every other cell that shares a vertex with a cell.
\<close>

definition adjacency_ok :: "mesh \<Rightarrow> bool" where
  "adjacency_ok m \<longleftrightarrow>
     (conn_size (conn m (0, tdim m)) > 0 \<longrightarrow>
        (\<forall>c < num_entities m (tdim m). \<forall>v \<in> set (conn m (tdim m, 0) ! c).
           c \<in> set (conn m (0, tdim m) ! v)))
     \<and> (conn_size (conn m (tdim m, tdim m)) > 0 \<longrightarrow>
        (\<forall>c < num_entities m (tdim m). \<forall>c0 < num_entities m (tdim m).
           c0 \<noteq> c \<and> set (conn m (tdim m, 0) ! c0) \<inter> set (conn m (tdim m, 0) ! c) \<noteq> {}
           \<longrightarrow> c0 \<in> set (conn m (tdim m, tdim m) ! c)))"

text \<open>
  Cells and cell type are well formed for dimension \<open>d\<close>: every local tuple is non-empty,
  the candidates of one cell are pairwise different as sorted tuples, and no candidate
  repeats a vertex.
\<close>

definition well_formed_cells :: "mesh \<Rightarrow> nat \<Rightarrow> bool" where
  "well_formed_cells m d \<longleftrightarrow>
     (\<forall>tup \<in> set (cell_entities m d). tup \<noteq> [])
     \<and> (\<forall>c < num_entities m (tdim m).
          distinct (sorted_candidates m d c)
          \<and> (\<forall>t \<in> set (sorted_candidates m d c). distinct t))"

section \<open>Example meshes\<close>

text \<open>The triangle's table of local entities: local edge \<open>k\<close> is opposite local vertex \<open>k\<close>.\<close>

definition triangle :: "nat \<Rightarrow> nat list list" where
  "triangle d = (if d = 0 then [[0], [1], [2]]
                 else if d = 1 then [[1, 2], [0, 2], [0, 1]]
                 else if d = 2 then [[0, 1, 2]] else [])"

text \<open>Two triangles sharing the edge between vertices 1 and 2 (scenario 2 of the spec).\<close>

definition two_triangles :: mesh where
  "two_triangles =
     \<lparr>tdim = 2,
      num_entities = (\<lambda>d. if d = 0 then 4 else if d = 2 then 2 else 0),
      conn = (\<lambda>k. if k = (2, 0) then [[0, 1, 2], [1, 3, 2]] else []),
      cell_entities = triangle\<rparr>"

text \<open>One triangle with its three edges and their vertices, the cell-edge incidence not yet computed.\<close>

definition triangle_with_edges :: mesh where
  "triangle_with_edges =
     \<lparr>tdim = 2,
      num_entities = (\<lambda>d. if d = 0 then 3 else if d = 1 then 3 else if d = 2 then 1 else 0),
      conn = (\<lambda>k. if k = (2, 0) then [[0, 1, 2]]
                   else if k = (1, 0) then [[1, 2], [0, 2], [0, 1]]
                   else if k = (0, 1) then [[1, 2], [0, 2], [0, 1]]
                   else []),
      cell_entities = triangle\<rparr>"

text \<open>One triangle whose vertices are listed as 0, 2, 1.\<close>

definition flipped_triangle :: mesh where
  "flipped_triangle =
     \<lparr>tdim = 2,
      num_entities = (\<lambda>d. if d = 0 then 3 else if d = 2 then 1 else 0),
      conn = (\<lambda>k. if k = (2, 0) then [[0, 2, 1]] else []),
      cell_entities = triangle\<rparr>"

text \<open>One tetrahedron of a cell type that has no table for edges and faces.\<close>

definition bare_tetrahedron :: mesh where
  "bare_tetrahedron =
     \<lparr>tdim = 3,
      num_entities = (\<lambda>d. if d = 0 then 4 else if d = 3 then 1 else 0),
      conn = (\<lambda>k. if k = (3, 0) then [[0, 1, 2, 3]] else []),
      cell_entities = (\<lambda>d. if d = 0 then [[0], [1], [2], [3]]
                             else if d = 3 then [[0, 1, 2, 3]] else [])\<rparr>"

text \<open>A triangulation that has no cells and no vertices yet.\<close>

definition no_cells :: mesh where
  "no_cells =
     \<lparr>tdim = 2, num_entities = (\<lambda>d. 0), conn = (\<lambda>k. []), cell_entities = triangle\<rparr>"

text \<open>One triangle that lists vertex 1 twice.\<close>

definition repeated_vertex_triangle :: mesh where
  "repeated_vertex_triangle =
     \<lparr>tdim = 2,
      num_entities = (\<lambda>d. if d = 0 then 2 else if d = 2 then 1 else 0),
      conn = (\<lambda>k. if k = (2, 0) then [[0, 1, 1]] else []),
      cell_entities = triangle\<rparr>"

text \<open>
  The two triangles sharing an edge, with a cell adjacency already stored in which the
  second cell has no neighbour.
\<close>

definition isolated_second_cell :: mesh where
  "isolated_second_cell =
     \<lparr>tdim = 2,
      num_entities = (\<lambda>d. if d = 0 then 4 else if d = 2 then 2 else 0),
      conn = (\<lambda>k. if k = (2, 0) then [[0, 1, 2], [1, 3, 2]]
                   else if k = (2, 2) then [[1], []] else []),
      cell_entities = triangle\<rparr>"

text \<open>Two triangles on two vertices: each cell lists one of its vertices twice.\<close>

definition repeated_vertex_cells :: mesh where
  "repeated_vertex_cells =
     \<lparr>tdim = 2,
      num_entities = (\<lambda>d. if d = 0 then 2 else if d = 2 then 2 else 0),
      conn = (\<lambda>k. if k = (2, 0) then [[0, 0, 1], [1, 0, 1]] else []),
      cell_entities = triangle\<rparr>"

text \<open>The store \<open>k\<close> of the mesh returned by \<open>compute_entities\<close>, if it returned one.\<close>

definition stored :: "(nat \<times> mesh) result option \<Rightarrow> nat \<times> nat \<Rightarrow> connectivity option" where
  "stored r k = (case r of Some (Inr nm) \<Rightarrow> Some (conn (snd nm) k) | _ \<Rightarrow> None)"

text \<open>The count returned by \<open>compute_entities\<close>, if it returned one.\<close>

definition counted :: "(nat \<times> mesh) result option \<Rightarrow> nat option" where
  "counted r = (case r of Some (Inr nm) \<Rightarrow> Some (fst nm) | _ \<Rightarrow> None)"

text \<open>The store \<open>k\<close> of the mesh returned by the transpose or the intersection.\<close>

definition built :: "mesh result \<Rightarrow> nat \<times> nat \<Rightarrow> connectivity option" where
  "built r k = (case r of Inr m' \<Rightarrow> Some (conn m' k) | Inl e \<Rightarrow> None)"

section \<open>Basic facts\<close>

lemma extends_refl: "extends m m"
  by (simp add: extends_def)

lemma extends_trans: "extends a b \<Longrightarrow> extends b c \<Longrightarrow> extends a c"
  by (auto simp: extends_def)

lemma extends_conn: "extends m m' \<Longrightarrow> conn_size (conn m k) > 0 \<Longrightarrow> conn m' k = conn m k"
  unfolding extends_def by blast

lemma extends_num: "extends m m' \<Longrightarrow> num_entities m d > 0 \<Longrightarrow> num_entities m' d = num_entities m d"
  unfolding extends_def by blast

lemma extends_tdim: "extends m m' \<Longrightarrow> tdim m' = tdim m"
  unfolding extends_def by blast

lemma extends_cell: "extends m m' \<Longrightarrow> cell_entities m' = cell_entities m"
  unfolding extends_def by blast

lemma and_then_Inr:
  assumes "and_then r f = Some (Inr b)"
  obtains a where "r = Some (Inr a)" "f a = Some (Inr b)"
  using assms by (auto simp: and_then_def split: option.splits sum.splits)

lemma and_then_returns:
  assumes "r \<noteq> None" and "\<And>a. r = Some (Inr a) \<Longrightarrow> f a \<noteq> None"
  shows "and_then r f \<noteq> None"
  using assms by (auto simp: and_then_def split: option.splits sum.splits)

lemma and_then_Some_returns:
  assumes "r \<noteq> None"
  shows "and_then r (\<lambda>a. Some (g a)) \<noteq> None"
  using assms by (auto simp: and_then_def split: option.splits sum.splits)

lemma set_conn_Inr:
  assumes "set_conn m k rows = Inr m'"
  shows "conn m k = [] \<and> m' = m\<lparr>conn := (conn m)(k := rows)\<rparr>"
  using assms by (auto simp: set_conn_def conn_size_def split: if_splits)

lemma set_conn_extends: "set_conn m k rows = Inr m' \<Longrightarrow> extends m m'"
  by (auto simp: set_conn_def extends_def split: if_splits)

lemma compute_connectivity_Suc:
  "compute_connectivity (Suc fuel) m d0 d1 =
     (if conn_size (conn m (d0, d1)) > 0 then Some (Inr m)
      else and_then (ensure_entities fuel m d0) (\<lambda>ma.
           and_then (ensure_entities fuel ma d1) (\<lambda>mb.
             if num_entities mb d0 = 0 \<and> num_entities mb d1 = 0 then Some (Inr mb)
             else if conn_size (conn mb (d0, d1)) > 0 then Some (Inr mb)
             else dispatch fuel mb d0 d1)))"
  unfolding ensure_entities_def dispatch_def by (rule compute_connectivity.simps)

lemma compute_entities_Suc:
  "compute_entities (Suc fuel) m d =
     (if num_entities m d > 0 then
        (if (conn_size (conn m (tdim m, d)) = 0 \<and> d \<noteq> tdim m) \<or> (conn_size (conn m (d, 0)) = 0 \<and> d \<noteq> 0)
         then Some (Inl (ConnectivityMissing d, m))
         else Some (Inr (num_entities m d, m)))
      else if conn_size (conn m (tdim m, d)) > 0 \<or> conn_size (conn m (d, 0)) > 0
      then Some (Inl (EntitiesMissing d, m))
      else and_then (compute_connectivity fuel m (tdim m) (tdim m)) (\<lambda>m1. Some (build_entities m1 d)))"
  by (simp add: compute_entities.simps Let_def)

lemma ensure_present:
  "num_entities m d > 0 \<Longrightarrow> ensure_entities fuel m d = Some (Inr m)"
  by (simp add: ensure_entities_def)

section \<open>Stored entity vertices are sorted\<close>

lemma entity_body_sorted:
  assumes "entity_body m c entity s = Some s'"
    and "\<forall>r \<in> set (connectivity_ev s). sorted r"
  shows "\<forall>r \<in> set (connectivity_ev s'). sorted r"
  using assms by (auto simp: entity_body_def Let_def split: if_splits option.splits)

lemma entities_loop_sorted:
  assumes "entities_loop m c entities s = Some s'"
    and "\<forall>r \<in> set (connectivity_ev s). sorted r"
  shows "\<forall>r \<in> set (connectivity_ev s'). sorted r"
  using assms
proof (induction entities arbitrary: s)
  case Nil
  then show ?case by simp
next
  case (Cons entity entities)
  from Cons.prems(1) obtain s1 where s1: "entity_body m c entity s = Some s1"
    and rest: "entities_loop m c entities s1 = Some s'"
    by (auto split: option.splits)
  from entity_body_sorted [OF s1 Cons.prems(2)] Cons.IH [OF rest] show ?case by blast
qed

lemma cells_loop_sorted:
  assumes "cells_loop m d cs s = Inr s'"
    and "\<forall>r \<in> set (connectivity_ev s). sorted r"
  shows "\<forall>r \<in> set (connectivity_ev s'). sorted r"
  using assms
proof (induction cs arbitrary: s)
  case Nil
  then show ?case by simp
next
  case (Cons c cs)
  from Cons.prems(1) obtain es s1 where
    s1: "entities_loop m c es s = Some s1"
    and rest: "cells_loop m d cs s1 = Inr s'"
    by (auto split: if_splits option.splits)
  from entities_loop_sorted [OF s1 Cons.prems(2)] Cons.IH [OF rest] show ?case by blast
qed

lemma store_entities_ev:
  assumes "store_entities m d s = Inr (n, m')"
  shows "conn m' (d, 0) = connectivity_ev s \<and> n = length (connectivity_ev s)
         \<and> num_entities m' d = length (connectivity_ev s)"
  using assms
  by (auto simp: store_entities_def set_conn_def topology_init_def Let_def
           split: if_splits sum.splits)

lemma build_entities_sorted:
  assumes "build_entities m d = Inr (n, m')"
  shows "\<forall>r \<in> set (conn m' (d, 0)). sorted r"
proof -
  from assms obtain s where
    loop: "cells_loop m d [0..<num_entities m (tdim m)] (initial_state m) = Inr s"
    and st: "store_entities m d s = Inr (n, m')"
    by (auto simp: build_entities_def split: sum.splits)
  have "\<forall>r \<in> set (connectivity_ev (initial_state m)). sorted r"
    by (simp add: initial_state_def)
  from cells_loop_sorted [OF loop this] store_entities_ev [OF st] show ?thesis by simp
qed

lemma compute_entities_fresh:
  assumes "compute_entities fuel m d = Some (Inr (n, m'))" and "num_entities m d = 0"
  obtains g m1 where "fuel = Suc g" "compute_connectivity g m (tdim m) (tdim m) = Some (Inr m1)"
    "build_entities m1 d = Inr (n, m')"
  using assms
  by (cases fuel)
    (auto simp: compute_entities.simps Let_def and_then_def split: if_splits option.splits sum.splits)

text \<open>
  Claim C10. Every row of the entity-to-vertex incidence \<open>(d, 0)\<close> produced by
  \<open>compute_entities(d)\<close> lists the vertices of the entity in ascending order: the tuple is
  sorted before the lookup and the sorted tuple is the one that is stored.
\<close>

theorem entity_vertices_sorted:
  assumes "compute_entities fuel m d = Some (Inr (n, m'))" and "num_entities m d = 0"
  shows "\<forall>r \<in> set (conn m' (d, 0)). sorted r"
proof -
  from assms obtain g m1 where "build_entities m1 d = Inr (n, m')"
    by (rule compute_entities_fresh)
  then show ?thesis by (rule build_entities_sorted)
qed

theorem entity_vertices_sorted_witness:
  "\<exists>n m'. compute_entities 4 two_triangles 1 = Some (Inr (n, m'))
     \<and> num_entities two_triangles 1 = 0
     \<and> conn m' (1, 0) = [[1, 2], [0, 2], [0, 1], [2, 3], [1, 3]]
     \<and> (\<forall>r \<in> set (conn m' (1, 0)). sorted r)"
proof -
  have "case compute_entities 4 two_triangles 1 of
          Some (Inr r) \<Rightarrow> conn (snd r) (1, 0) = [[1, 2], [0, 2], [0, 1], [2, 3], [1, 3]]
        | _ \<Rightarrow> False"
    by code_simp
  then obtain n m' where r: "compute_entities 4 two_triangles 1 = Some (Inr (n, m'))"
    and c: "conn m' (1, 0) = [[1, 2], [0, 2], [0, 1], [2, 3], [1, 3]]"
    by (auto split: option.splits sum.splits)
  have z: "num_entities two_triangles 1 = 0" by (simp add: two_triangles_def)
  from entity_vertices_sorted [OF r z] r z c show ?thesis by blast
qed

section \<open>The topology table only grows\<close>

lemma store_entities_Inr:
  assumes "store_entities m d s = Inr (n, m')"
  shows "tdim m' = tdim m \<and> cell_entities m' = cell_entities m
         \<and> num_entities m' = (num_entities m)(d := length (connectivity_ev s))
         \<and> (\<forall>k. k \<noteq> (tdim m, d) \<and> k \<noteq> (d, 0) \<longrightarrow> conn m' k = conn m k)"
  using assms
  by (auto simp: store_entities_def set_conn_def topology_init_def Let_def
           split: if_splits sum.splits)

lemma build_entities_Inr:
  assumes "build_entities m d = Inr (n, m')"
  shows "tdim m' = tdim m \<and> cell_entities m' = cell_entities m
         \<and> (\<forall>x. x \<noteq> d \<longrightarrow> num_entities m' x = num_entities m x)
         \<and> (\<forall>k. k \<noteq> (tdim m, d) \<and> k \<noteq> (d, 0) \<longrightarrow> conn m' k = conn m k)"
proof -
  from assms obtain s where "store_entities m d s = Inr (n, m')"
    by (auto simp: build_entities_def split: sum.splits)
  from store_entities_Inr [OF this] show ?thesis by simp
qed

lemma add_connection_frame:
  assumes "add_connection d0 d1 e1 pos tm = Inr tm'"
  shows "tdim (snd tm') = tdim (snd tm) \<and> cell_entities (snd tm') = cell_entities (snd tm)
         \<and> num_entities (snd tm') = num_entities (snd tm)
         \<and> (\<forall>k. k \<noteq> (d0, d1) \<longrightarrow> conn (snd tm') k = conn (snd tm) k)"
  using assms by (auto simp: add_connection_def Let_def split: if_splits)

lemma add_row_frame:
  assumes "add_row d0 d1 e1 ps tm = Inr tm'"
  shows "tdim (snd tm') = tdim (snd tm) \<and> cell_entities (snd tm') = cell_entities (snd tm)
         \<and> num_entities (snd tm') = num_entities (snd tm)
         \<and> (\<forall>k. k \<noteq> (d0, d1) \<longrightarrow> conn (snd tm') k = conn (snd tm) k)"
  using assms
proof (induction ps arbitrary: tm)
  case Nil
  then show ?case by simp
next
  case (Cons pos ps)
  from Cons.prems obtain t1 where a: "add_connection d0 d1 e1 pos tm = Inr t1"
    and b: "add_row d0 d1 e1 ps t1 = Inr tm'"
    by (auto split: sum.splits)
  from add_connection_frame [OF a] Cons.IH [OF b] show ?case by simp
qed

lemma add_connections_frame:
  assumes "add_connections d0 d1 es tm = Inr tm'"
  shows "tdim (snd tm') = tdim (snd tm) \<and> cell_entities (snd tm') = cell_entities (snd tm)
         \<and> num_entities (snd tm') = num_entities (snd tm)
         \<and> (\<forall>k. k \<noteq> (d0, d1) \<longrightarrow> conn (snd tm') k = conn (snd tm) k)"
  using assms
proof (induction es arbitrary: tm)
  case Nil
  then show ?case by simp
next
  case (Cons e1 es)
  from Cons.prems obtain t1 where
    a: "add_row d0 d1 e1 [0..<length (conn (snd tm) (d1, d0) ! e1)] tm = Inr t1"
    and b: "add_connections d0 d1 es t1 = Inr tm'"
    by (auto split: sum.splits if_splits)
  from add_row_frame [OF a] Cons.IH [OF b] show ?case by simp
qed

lemma compute_from_transpose_frame:
  assumes "compute_from_transpose m d0 d1 = Inr m'"
  shows "conn m (d0, d1) = [] \<and> tdim m' = tdim m \<and> cell_entities m' = cell_entities m
         \<and> num_entities m' = num_entities m
         \<and> (\<forall>k. k \<noteq> (d0, d1) \<longrightarrow> conn m' k = conn m k)"
proof -
  from assms obtain tmp m1 tm where
    s: "set_conn m (d0, d1) (init_sizes tmp) = Inr m1"
    and a: "add_connections d0 d1 [0..<num_entities m1 d1] (replicate (length tmp) 0, m1) = Inr tm"
    and m': "m' = snd tm"
    by (auto simp: compute_from_transpose_def split: if_splits option.splits sum.splits)
  from set_conn_Inr [OF s] add_connections_frame [OF a] m' show ?thesis by simp
qed

lemma compute_from_transpose_extends:
  "compute_from_transpose m d0 d1 = Inr m' \<Longrightarrow> extends m m'"
  using compute_from_transpose_frame [of m d0 d1 m']
  by (auto simp: extends_def conn_size_def)

lemma compute_from_intersection_frame:
  assumes "compute_from_intersection m d0 d1 d = Inr m'"
  shows "conn m (d0, d1) = [] \<and> tdim m' = tdim m \<and> cell_entities m' = cell_entities m
         \<and> num_entities m' = num_entities m
         \<and> (\<forall>k. k \<noteq> (d0, d1) \<longrightarrow> conn m' k = conn m k)"
proof -
  from assms obtain rows where "set_conn m (d0, d1) rows = Inr m'"
    by (auto simp: compute_from_intersection_def split: if_splits option.splits)
  from set_conn_Inr [OF this] show ?thesis by simp
qed

lemma compute_from_intersection_extends:
  "compute_from_intersection m d0 d1 d = Inr m' \<Longrightarrow> extends m m'"
  using compute_from_intersection_frame [of m d0 d1 d m']
  by (auto simp: extends_def conn_size_def)

lemma mutual_extends:
  "(\<forall>m d r. compute_entities fuel m d = Some (Inr r) \<longrightarrow> extends m (snd r))
   \<and> (\<forall>m d0 d1 m'. compute_connectivity fuel m d0 d1 = Some (Inr m') \<longrightarrow> extends m m')"
proof (induction fuel)
  case 0
  then show ?case by (simp add: compute_entities.simps compute_connectivity.simps)
next
  case (Suc fuel)
  have ihE: "\<And>m d r. compute_entities fuel m d = Some (Inr r) \<Longrightarrow> extends m (snd r)"
    and ihC: "\<And>m d0 d1 m'. compute_connectivity fuel m d0 d1 = Some (Inr m') \<Longrightarrow> extends m m'"
    using Suc.IH by blast+
  have ens: "\<And>m d m'. ensure_entities fuel m d = Some (Inr m') \<Longrightarrow> extends m m'"
    unfolding ensure_entities_def
    by (auto split: if_splits elim!: and_then_Inr dest: ihE simp: extends_refl)
  have disp: "\<And>m d0 d1 m'. dispatch fuel m d0 d1 = Some (Inr m') \<Longrightarrow> extends m m'"
    unfolding dispatch_def Let_def
    by (auto split: if_splits elim!: and_then_Inr
        dest!: ihC compute_from_transpose_extends compute_from_intersection_extends
        intro: extends_trans)
  have E: "extends m (snd r)" if r: "compute_entities (Suc fuel) m d = Some (Inr r)" for m d r
  proof (cases "num_entities m d > 0")
    case True
    with r show ?thesis
      by (auto simp: compute_entities_Suc extends_refl split: if_splits)
  next
    case False
    with r obtain m1 where c: "compute_connectivity fuel m (tdim m) (tdim m) = Some (Inr m1)"
      and b: "build_entities m1 d = Inr r"
      and abs: "conn m (tdim m, d) = []" "conn m (d, 0) = []"
      by (auto simp: compute_entities_Suc conn_size_def split: if_splits elim!: and_then_Inr)
    from ihC [OF c] have e1: "extends m m1" .
    from b build_entities_Inr [of m1 d "fst r" "snd r"] have
      fr: "tdim (snd r) = tdim m1" "cell_entities (snd r) = cell_entities m1"
        "\<forall>x. x \<noteq> d \<longrightarrow> num_entities (snd r) x = num_entities m1 x"
        "\<forall>k. k \<noteq> (tdim m1, d) \<and> k \<noteq> (d, 0) \<longrightarrow> conn (snd r) k = conn m1 k"
      by auto
    show ?thesis
      unfolding extends_def
    proof (intro conjI allI impI)
      show "tdim (snd r) = tdim m" using fr e1 by (simp add: extends_def)
      show "cell_entities (snd r) = cell_entities m" using fr e1 by (simp add: extends_def)
      show "num_entities (snd r) x = num_entities m x" if "0 < num_entities m x" for x
      proof -
        from that False have "x \<noteq> d" by auto
        with fr have "num_entities (snd r) x = num_entities m1 x" by simp
        with e1 that show ?thesis by (simp add: extends_def)
      qed
      show "conn (snd r) k = conn m k" if "0 < conn_size (conn m k)" for k
      proof -
        from that abs have "k \<noteq> (tdim m, d)" "k \<noteq> (d, 0)" by (auto simp: conn_size_def)
        moreover have "tdim m1 = tdim m" using e1 by (simp add: extends_def)
        ultimately have "conn (snd r) k = conn m1 k" using fr(4) by (cases k) auto
        with extends_conn [OF e1 that] show ?thesis by simp
      qed
    qed
  qed
  have C: "extends m m'" if r: "compute_connectivity (Suc fuel) m d0 d1 = Some (Inr m')" for m d0 d1 m'
    using r unfolding compute_connectivity_Suc
    by (auto split: if_splits elim!: and_then_Inr dest!: ens disp
        intro: extends_trans simp: extends_refl)
  from E C show ?case by blast
qed

lemma compute_connectivity_extends:
  "compute_connectivity fuel m d0 d1 = Some (Inr m') \<Longrightarrow> extends m m'"
  using mutual_extends by blast

lemma compute_entities_extends:
  "compute_entities fuel m d = Some (Inr r) \<Longrightarrow> extends m (snd r)"
  using mutual_extends by blast

lemma ensure_entities_extends:
  "ensure_entities fuel m d = Some (Inr m') \<Longrightarrow> extends m m'"
  unfolding ensure_entities_def
  by (auto split: if_splits elim!: and_then_Inr dest: compute_entities_extends simp: extends_refl)

lemma constructed_extends:
  assumes "constructed m" and "extends m m'"
  shows "constructed m'"
proof -
  have "tdim m' = tdim m" by (rule extends_tdim [OF assms(2)])
  moreover have "num_entities m' (tdim m) = num_entities m (tdim m)"
    using assms(1) by (intro extends_num [OF assms(2)]) (simp add: constructed_def)
  moreover have "num_entities m' 0 = num_entities m 0"
    using assms(1) by (intro extends_num [OF assms(2)]) (simp add: constructed_def)
  moreover have "conn m' (tdim m, 0) = conn m (tdim m, 0)"
    using assms(1) by (intro extends_conn [OF assms(2)]) (simp add: constructed_def)
  ultimately show ?thesis using assms(1) by (simp add: constructed_def)
qed

section \<open>Termination of the strategist\<close>

lemma fuel3: "3 \<le> g \<Longrightarrow> \<exists>h. g = Suc (Suc (Suc h))"
  by (rule exI [of _ "g - 3"]) arith

lemma fuel2: "2 \<le> g \<Longrightarrow> \<exists>h. g = Suc (Suc h)"
  by (rule exI [of _ "g - 2"]) arith

lemma cc_cells_vertices:
  assumes "constructed m"
  shows "compute_connectivity (Suc f) m (tdim m) 0 = Some (Inr m)"
  using assms by (simp add: constructed_def compute_connectivity_Suc)

lemma cc_vertices_cells:
  assumes "constructed m"
  shows "compute_connectivity (Suc (Suc f)) m 0 (tdim m) \<noteq> None"
proof (cases "conn_size (conn m (0, tdim m)) > 0")
  case True
  then show ?thesis by (simp add: compute_connectivity_Suc)
next
  case False
  with assms have D: "0 < tdim m" by (cases "tdim m = 0") (auto simp: constructed_def)
  have n: "num_entities m 0 > 0" "num_entities m (tdim m) > 0"
    using assms by (auto simp: constructed_def)
  have "dispatch (Suc f) m 0 (tdim m) \<noteq> None"
    using D cc_cells_vertices [OF assms, of f] by (simp add: dispatch_def and_then_def)
  with False n show ?thesis
    by (simp add: compute_connectivity_Suc ensure_present and_then_def)
qed

lemma cc_cells_cells:
  assumes "constructed m"
  shows "compute_connectivity (Suc (Suc (Suc f))) m (tdim m) (tdim m) \<noteq> None"
proof (cases "conn_size (conn m (tdim m, tdim m)) > 0")
  case True
  then show ?thesis by (simp add: compute_connectivity_Suc)
next
  case False
  with assms have D: "0 < tdim m" by (cases "tdim m = 0") (auto simp: constructed_def)
  have n: "num_entities m (tdim m) > 0"
    using assms by (auto simp: constructed_def)
  have "and_then (compute_connectivity (Suc (Suc f)) m 0 (tdim m))
          (\<lambda>md. Some (compute_from_intersection md (tdim m) (tdim m) 0)) \<noteq> None"
    by (rule and_then_Some_returns [OF cc_vertices_cells [OF assms]])
  then have "dispatch (Suc (Suc f)) m (tdim m) (tdim m) \<noteq> None"
    using D cc_cells_vertices [OF assms, of "Suc f"]
    by (simp add: dispatch_def and_then_def)
  with False n show ?thesis
    by (simp add: compute_connectivity_Suc ensure_present and_then_def)
qed

lemma compute_entities_returns:
  assumes "constructed m" and "4 \<le> f"
  shows "compute_entities f m d \<noteq> None"
proof -
  from assms(2) obtain g where f: "f = Suc g" and "3 \<le> g"
    by (cases f) auto
  then obtain h where g: "g = Suc (Suc (Suc h))"
    using fuel3 by blast
  have "and_then (compute_connectivity g m (tdim m) (tdim m)) (\<lambda>m1. Some (build_entities m1 d))
        \<noteq> None"
    unfolding g by (rule and_then_Some_returns [OF cc_cells_cells [OF assms(1)]])
  then show ?thesis
    unfolding f compute_entities_Suc by simp
qed

lemma ensure_entities_returns:
  assumes "constructed m" and "4 \<le> f"
  shows "ensure_entities f m d \<noteq> None"
proof -
  have "and_then (compute_entities f m d) (\<lambda>r. Some (Inr (snd r))) \<noteq> None"
    by (rule and_then_Some_returns [OF compute_entities_returns [OF assms]])
  then show ?thesis by (simp add: ensure_entities_def)
qed

lemma cc_step:
  assumes "constructed m" and "4 \<le> f"
    and "\<And>mb. constructed mb \<Longrightarrow> dispatch f mb d0 d1 \<noteq> None"
  shows "compute_connectivity (Suc f) m d0 d1 \<noteq> None"
proof (cases "conn_size (conn m (d0, d1)) > 0")
  case True
  then show ?thesis by (simp add: compute_connectivity_Suc)
next
  case False
  have "and_then (ensure_entities f m d0) (\<lambda>ma.
           and_then (ensure_entities f ma d1) (\<lambda>mb.
             if num_entities mb d0 = 0 \<and> num_entities mb d1 = 0 then Some (Inr mb)
             else if conn_size (conn mb (d0, d1)) > 0 then Some (Inr mb)
             else dispatch f mb d0 d1)) \<noteq> None"
  proof (rule and_then_returns)
    show "ensure_entities f m d0 \<noteq> None" by (rule ensure_entities_returns [OF assms(1,2)])
  next
    fix ma assume a: "ensure_entities f m d0 = Some (Inr ma)"
    have ca: "constructed ma"
      by (rule constructed_extends [OF assms(1) ensure_entities_extends [OF a]])
    show "and_then (ensure_entities f ma d1) (\<lambda>mb.
             if num_entities mb d0 = 0 \<and> num_entities mb d1 = 0 then Some (Inr mb)
             else if conn_size (conn mb (d0, d1)) > 0 then Some (Inr mb)
             else dispatch f mb d0 d1) \<noteq> None"
    proof (rule and_then_returns)
      show "ensure_entities f ma d1 \<noteq> None" by (rule ensure_entities_returns [OF ca assms(2)])
    next
      fix mb assume b: "ensure_entities f ma d1 = Some (Inr mb)"
      have "constructed mb"
        by (rule constructed_extends [OF ca ensure_entities_extends [OF b]])
      from assms(3) [OF this]
      show "(if num_entities mb d0 = 0 \<and> num_entities mb d1 = 0 then Some (Inr mb)
             else if conn_size (conn mb (d0, d1)) > 0 then Some (Inr mb)
             else dispatch f mb d0 d1) \<noteq> None"
        by simp
    qed
  qed
  with False show ?thesis by (simp add: compute_connectivity_Suc)
qed

lemma cc_to_vertices:
  assumes "constructed m" and "5 \<le> f"
  shows "compute_connectivity f m d 0 \<noteq> None"
proof -
  from assms(2) obtain g where f: "f = Suc g" and g: "4 \<le> g"
    by (cases f) auto
  from g obtain h where h: "g = Suc (Suc h)"
    using fuel2 [of g] by auto
  show ?thesis
    unfolding f
  proof (rule cc_step [OF assms(1) g])
    fix mb assume c: "constructed mb"
    show "dispatch g mb d 0 \<noteq> None"
    proof (cases "d = 0")
      case True
      have "and_then (compute_connectivity g mb 0 (tdim mb))
              (\<lambda>mc. and_then (compute_connectivity g mc (tdim mb) 0)
                (\<lambda>md. Some (compute_from_intersection md 0 0 (tdim mb)))) \<noteq> None"
      proof (rule and_then_returns)
        show "compute_connectivity g mb 0 (tdim mb) \<noteq> None"
          unfolding h by (rule cc_vertices_cells [OF c])
      next
        fix mc assume "compute_connectivity g mb 0 (tdim mb) = Some (Inr mc)"
        then have e: "extends mb mc" by (rule compute_connectivity_extends)
        then have "constructed mc" by (rule constructed_extends [OF c])
        from cc_cells_vertices [OF this, of "Suc h"] extends_tdim [OF e]
        show "and_then (compute_connectivity g mc (tdim mb) 0)
                (\<lambda>md. Some (compute_from_intersection md 0 0 (tdim mb))) \<noteq> None"
          by (simp add: h and_then_def)
      qed
      with True show ?thesis by (simp add: dispatch_def Let_def)
    next
      case False
      then show ?thesis by (simp add: dispatch_def)
    qed
  qed
qed

lemma cc_from_vertices:
  assumes "constructed m" and "6 \<le> f"
  shows "compute_connectivity f m 0 d1 \<noteq> None"
proof (cases "d1 = 0")
  case True
  with cc_to_vertices [OF assms(1), of f 0] assms(2) show ?thesis by simp
next
  case False
  from assms(2) obtain g where f: "f = Suc g" and g: "5 \<le> g"
    by (cases f) auto
  show ?thesis
    unfolding f
  proof (rule cc_step [OF assms(1)])
    show "4 \<le> g" using g by simp
  next
    fix mb assume c: "constructed mb"
    from False and_then_Some_returns [OF cc_to_vertices [OF c g, of d1]]
    show "dispatch g mb 0 d1 \<noteq> None"
      by (simp add: dispatch_def)
  qed
qed

lemma cc_downward:
  assumes "constructed m" and "7 \<le> f" and "d1 \<le> d0"
  shows "compute_connectivity f m d0 d1 \<noteq> None"
proof (cases "d1 = 0")
  case True
  with cc_to_vertices [OF assms(1), of f d0] assms(2) show ?thesis by simp
next
  case False
  from assms(2) obtain g where f: "f = Suc g" and g: "6 \<le> g"
    by (cases f) auto
  show ?thesis
    unfolding f
  proof (rule cc_step [OF assms(1)])
    show "4 \<le> g" using g by simp
  next
    fix mb assume c: "constructed mb"
    have "and_then (compute_connectivity g mb d0 0)
            (\<lambda>mc. and_then (compute_connectivity g mc 0 d1)
              (\<lambda>md. Some (compute_from_intersection md d0 d1 0))) \<noteq> None"
    proof (rule and_then_returns)
      show "compute_connectivity g mb d0 0 \<noteq> None"
        using g by (intro cc_to_vertices [OF c]) simp
    next
      fix mc assume "compute_connectivity g mb d0 0 = Some (Inr mc)"
      then have "constructed mc"
        by (intro constructed_extends [OF c] compute_connectivity_extends)
      from cc_from_vertices [OF this g, of d1]
      show "and_then (compute_connectivity g mc 0 d1)
              (\<lambda>md. Some (compute_from_intersection md d0 d1 0)) \<noteq> None"
        by (rule and_then_Some_returns)
    qed
    with False assms(3) show "dispatch g mb d0 d1 \<noteq> None"
      by (simp add: dispatch_def)
  qed
qed

text \<open>
  Claim C4, as the code has it. On a mesh that holds its cells, its vertices and the
  primitive cell-vertex incidence \<open>(D, 0)\<close>, the mutual recursion of \<open>compute_connectivity\<close>
  (through \<open>compute_entities\<close>, the transpose and the intersection) ends for every pair of
  dimensions \<open>d0\<close>, \<open>d1\<close>: at most eight calls are ever nested, so every request returns
  (with a mesh or with a fatal error).
\<close>

theorem compute_connectivity_terminates:
  assumes "constructed m" and "8 \<le> fuel"
  shows "\<exists>r. compute_connectivity fuel m d0 d1 = Some r"
proof (cases "d1 \<le> d0")
  case True
  with cc_downward [OF assms(1), of fuel d1 d0] assms(2) show ?thesis by auto
next
  case False
  from assms(2) obtain g where f: "fuel = Suc g" and g: "7 \<le> g"
    by (cases fuel) auto
  have "compute_connectivity (Suc g) m d0 d1 \<noteq> None"
  proof (rule cc_step [OF assms(1)])
    show "4 \<le> g" using g by simp
  next
    fix mb assume c: "constructed mb"
    from False and_then_Some_returns [OF cc_downward [OF c g, of d0 d1]]
    show "dispatch g mb d0 d1 \<noteq> None"
      by (simp add: dispatch_def)
  qed
  then show ?thesis unfolding f by auto
qed

theorem compute_connectivity_terminates_witness:
  "constructed two_triangles \<and> (8::nat) \<le> 8
   \<and> (\<exists>r. compute_connectivity 8 two_triangles 1 2 = Some r)"
proof -
  have c: "constructed two_triangles"
    by (simp add: constructed_def two_triangles_def conn_size_def)
  from compute_connectivity_terminates [OF c, of 8 1 2] c show ?thesis by simp
qed

lemma dispatch_requests:
  "dispatch fuel mb d0 d1 =
     (case requests (tdim mb) d0 d1 of
        [] \<Rightarrow> Some (Inl (AssertionFailed, mb))
      | [(a, b)] \<Rightarrow>
          and_then (compute_connectivity fuel mb a b)
            (\<lambda>mc. Some (compute_from_transpose mc d0 d1))
      | (a, b) # (a', b') # rest \<Rightarrow>
          and_then (compute_connectivity fuel mb a b)
            (\<lambda>mc. and_then (compute_connectivity fuel mc a' b')
              (\<lambda>md. Some (compute_from_intersection md d0 d1 b))))"
  by (simp add: dispatch_def requests_def Let_def)

lemma issued_dispatch:
  assumes "issued fuel m d0 d1 \<noteq> []"
  shows "\<exists>mb. compute_connectivity (Suc fuel) m d0 d1 = dispatch fuel mb d0 d1
              \<and> requests (tdim mb) d0 d1 = issued fuel m d0 d1"
proof -
  from assms have miss: "\<not> conn_size (conn m (d0, d1)) > 0"
    by (auto simp: issued_def split: if_splits)
  from assms miss obtain mb where
    e: "and_then (ensure_entities fuel m d0) (\<lambda>ma. ensure_entities fuel ma d1) = Some (Inr mb)"
    and nz: "\<not> (num_entities mb d0 = 0 \<and> num_entities mb d1 = 0)"
    and still: "\<not> conn_size (conn mb (d0, d1)) > 0"
    and r: "issued fuel m d0 d1 = requests (tdim mb) d0 d1"
    by (auto simp: issued_def split: option.splits sum.splits if_splits)
  from e obtain ma where a: "ensure_entities fuel m d0 = Some (Inr ma)"
    and b: "ensure_entities fuel ma d1 = Some (Inr mb)"
    by (auto simp: and_then_def split: option.splits sum.splits)
  have "compute_connectivity (Suc fuel) m d0 d1 = dispatch fuel mb d0 d1"
    using miss a b nz still by (auto simp: compute_connectivity_Suc and_then_def)
  with r show ?thesis by auto
qed

lemma no_cells_never_returns:
  "compute_connectivity fuel no_cells 2 2 = None \<and> compute_entities fuel no_cells 2 = None"
proof (induction fuel)
  case 0
  show ?case by (simp add: compute_connectivity.simps compute_entities.simps)
next
  case (Suc g)
  then have cc: "compute_connectivity g no_cells 2 2 = None"
    and ce: "compute_entities g no_cells 2 = None" by simp_all
  have D: "tdim no_cells = 2" and n: "num_entities no_cells 2 = 0"
    and c: "\<And>k. conn_size (conn no_cells k) = 0"
    by (simp_all add: no_cells_def conn_size_def)
  have "ensure_entities g no_cells 2 = None"
    by (simp add: ensure_entities_def n ce and_then_def)
  then have "compute_connectivity (Suc g) no_cells 2 2 = None"
    by (simp add: compute_connectivity_Suc c and_then_def)
  moreover have "compute_entities (Suc g) no_cells 2 = None"
    by (simp add: compute_entities_Suc n c D cc and_then_def)
  ultimately show ?case by simp
qed

text \<open>
  The recursion does not follow \<open>max(d0, d1)\<close>, and it needs the cells. On the two
  triangles the request \<open>(1, 2)\<close> passes the cache tests and issues the request \<open>(2, 1)\<close>:
  the maximum stays 2, and \<open>(2, 1)\<close> is neither the primitive incidence \<open>(2, 0)\<close> nor its
  transpose \<open>(0, 2)\<close>. On a triangulation without cells, \<open>compute_connectivity(2, 2)\<close> asks
  for the cells, \<open>compute_entities(2)\<close> asks for \<open>compute_connectivity(2, 2)\<close>, and so on:
  no bound on the nesting is enough (lemma \<open>no_cells_never_returns\<close>), 64 for instance.
\<close>

theorem maximum_not_reduced_counterexample:
  "issued 7 two_triangles 1 2 = [(2, 1)]
   \<and> \<not> max (2::nat) 1 < max 1 2
   \<and> (2::nat, 1::nat) \<noteq> (tdim two_triangles, 0)
   \<and> (2::nat, 1::nat) \<noteq> (0, tdim two_triangles)
   \<and> compute_connectivity 64 no_cells 2 2 = None"
  by code_simp

section \<open>Requests that find their result present\<close>

text \<open>
  Claim C7. A request whose result is already present is a no-op:
  \<open>compute_connectivity(d0, d1)\<close> returns the mesh unchanged when the store \<open>(d0, d1)\<close> is
  present, and \<open>compute_entities(d)\<close> returns the known count and the mesh unchanged when the
  entities of dimension \<open>d\<close> exist with their connectivities. In particular a request
  repeated after a call that produced the store yields the same mesh, so the same arrays.
\<close>

theorem recomputation_is_noop:
  "(conn_size (conn m (d0, d1)) > 0 \<longrightarrow> compute_connectivity (Suc fuel) m d0 d1 = Some (Inr m))
   \<and> (num_entities m d > 0 \<and> (conn_size (conn m (tdim m, d)) > 0 \<or> d = tdim m)
        \<and> (conn_size (conn m (d, 0)) > 0 \<or> d = 0)
      \<longrightarrow> compute_entities (Suc fuel) m d = Some (Inr (num_entities m d, m)))
   \<and> (compute_connectivity fuel' m d0 d1 = Some (Inr m') \<and> conn_size (conn m' (d0, d1)) > 0
      \<longrightarrow> compute_connectivity (Suc fuel) m' d0 d1 = Some (Inr m'))"
  by (auto simp: compute_entities.simps compute_connectivity.simps Let_def)

theorem recomputation_is_noop_witness:
  "conn_size (conn two_triangles (2, 0)) > 0
   \<and> compute_connectivity (Suc 0) two_triangles 2 0 = Some (Inr two_triangles)
   \<and> num_entities two_triangles 2 > 0 \<and> 2 = tdim two_triangles
   \<and> conn_size (conn two_triangles (2, 0)) > 0
   \<and> compute_entities (Suc 0) two_triangles 2 = Some (Inr (num_entities two_triangles 2, two_triangles))
   \<and> (\<exists>m'. compute_connectivity 8 two_triangles 1 2 = Some (Inr m') \<and> conn_size (conn m' (1, 2)) > 0
         \<and> compute_connectivity (Suc 0) m' 1 2 = Some (Inr m'))"
proof -
  have p: "conn_size (conn two_triangles (2, 0)) > 0"
    and n: "num_entities two_triangles 2 > 0" and d: "2 = tdim two_triangles"
    by (simp_all add: two_triangles_def conn_size_def)
  have "case compute_connectivity 8 two_triangles 1 2 of
          Some (Inr m') \<Rightarrow> conn_size (conn m' (1, 2)) > 0
        | _ \<Rightarrow> False"
    by code_simp
  then obtain m' where r: "compute_connectivity 8 two_triangles 1 2 = Some (Inr m')"
    and q: "conn_size (conn m' (1, 2)) > 0"
    by (auto split: option.splits sum.splits)
  from recomputation_is_noop
         [where m = two_triangles and ?d0.0 = 2 and ?d1.0 = 0 and d = 2 and fuel = 0
            and fuel' = 8 and m' = two_triangles]
  have a: "compute_connectivity (Suc 0) two_triangles 2 0 = Some (Inr two_triangles)"
    and b: "compute_entities (Suc 0) two_triangles 2
            = Some (Inr (num_entities two_triangles 2, two_triangles))"
    using p n d by simp_all
  from recomputation_is_noop
         [where m = two_triangles and ?d0.0 = 1 and ?d1.0 = 2 and d = 2 and fuel = 0
            and fuel' = 8 and m' = m']
  have c: "compute_connectivity (Suc 0) m' 1 2 = Some (Inr m')"
    using r q by simp
  from a b c p n d r q show ?thesis by blast
qed

text \<open>
  Claim C8. When \<open>compute_entities(dim)\<close> finds the topology inconsistent (entities of
  dimension \<open>dim\<close> are counted but a connectivity they need is missing, or a connectivity is
  stored but no entity is counted) it raises its fatal error at once: the mesh carried by the
  error is the mesh the call was given, so every incidence and count is as before the call.
\<close>

theorem inconsistent_state_is_fatal_without_mutation:
  "(num_entities m d > 0 \<and>
      ((conn_size (conn m (tdim m, d)) = 0 \<and> d \<noteq> tdim m) \<or> (conn_size (conn m (d, 0)) = 0 \<and> d \<noteq> 0))
      \<longrightarrow> compute_entities (Suc fuel) m d = Some (Inl (ConnectivityMissing d, m)))
   \<and> (num_entities m d = 0 \<and> (conn_size (conn m (tdim m, d)) > 0 \<or> conn_size (conn m (d, 0)) > 0)
      \<longrightarrow> compute_entities (Suc fuel) m d = Some (Inl (EntitiesMissing d, m)))"
  by (auto simp: compute_entities.simps Let_def)

theorem inconsistent_state_is_fatal_without_mutation_witness:
  "(let m1 = two_triangles\<lparr>num_entities := (num_entities two_triangles)(1 := 5)\<rparr> in
      num_entities m1 1 > 0 \<and> conn_size (conn m1 (tdim m1, 1)) = 0 \<and> 1 \<noteq> tdim m1
      \<and> compute_entities (Suc 0) m1 1 = Some (Inl (ConnectivityMissing 1, m1)))
   \<and> (let m2 = two_triangles\<lparr>conn := (conn two_triangles)((2, 1) := [[0, 1, 2], [3, 0, 4]])\<rparr> in
      num_entities m2 1 = 0 \<and> conn_size (conn m2 (tdim m2, 1)) > 0
      \<and> compute_entities (Suc 0) m2 1 = Some (Inl (EntitiesMissing 1, m2)))"
  using inconsistent_state_is_fatal_without_mutation
          [where m = "two_triangles\<lparr>num_entities := (num_entities two_triangles)(1 := 5)\<rparr>"
             and d = 1 and fuel = 0]
        inconsistent_state_is_fatal_without_mutation
          [where m = "two_triangles\<lparr>conn := (conn two_triangles)((2, 1) := [[0, 1, 2], [3, 0, 4]])\<rparr>"
             and d = 1 and fuel = 0]
  by (simp add: two_triangles_def conn_size_def Let_def)

section \<open>Rows built by the intersection\<close>

lemma found_in_iff: "found_in v0 x \<longleftrightarrow> x \<in> set v0"
  by (induction v0) auto

lemma contains_iff: "contains v0 v1 \<longleftrightarrow> set v1 \<subseteq> set v0"
  by (induction v1) (auto simp: found_in_iff)

lemma intersect_inner_spec:
  assumes "intersect_inner m d0 d1 e0 es acc = Some r"
  shows "set r = set acc \<union> {e1 \<in> set es. retained m d0 d1 e0 e1}
         \<and> (distinct acc \<longrightarrow> distinct r)"
  using assms
proof (induction es arbitrary: acc)
  case Nil
  then show ?case by simp
next
  case (Cons e1 es)
  show ?case
  proof (cases "d0 = d1")
    case True
    with Cons.prems have
      "intersect_inner m d0 d1 e0 es
         (if e0 \<noteq> e1 \<and> e1 \<notin> set acc then acc @ [e1] else acc) = Some r"
      by simp
    from Cons.IH [OF this] True show ?thesis
      by (auto simp: retained_def split: if_splits)
  next
    case False
    with Cons.prems obtain b where b: "contains_entity m d0 e0 d1 e1 = Some b"
      and rest: "intersect_inner m d0 d1 e0 es
         (if b \<and> e1 \<notin> set acc then acc @ [e1] else acc) = Some r"
      by (auto split: option.splits)
    from b have "b \<longleftrightarrow> retained m d0 d1 e0 e1"
      using False by (auto simp: contains_entity_def contains_iff retained_def split: if_splits)
    with Cons.IH [OF rest] show ?thesis
      by (auto split: if_splits)
  qed
qed

lemma intersect_outer_spec:
  assumes "intersect_outer m d0 d1 d e0 es acc = Some r"
  shows "set r = set acc \<union> {e1 \<in> (\<Union>e \<in> set es. set (conn m (d, d1) ! e)). retained m d0 d1 e0 e1}
         \<and> (distinct acc \<longrightarrow> distinct r)"
  using assms
proof (induction es arbitrary: acc)
  case Nil
  then show ?case by simp
next
  case (Cons e es)
  from Cons.prems obtain acc1 where
    a: "intersect_inner m d0 d1 e0 (conn m (d, d1) ! e) acc = Some acc1"
    and b: "intersect_outer m d0 d1 d e0 es acc1 = Some r"
    by (auto split: if_splits option.splits)
  from intersect_inner_spec [OF a] Cons.IH [OF b] show ?case by auto
qed

lemma intersect_rows_spec:
  assumes "intersect_rows m d0 d1 d es = Some rows"
  shows "length rows = length es
         \<and> (\<forall>i < length es. intersect_outer m d0 d1 d (es ! i) (conn m (d0, d) ! (es ! i)) [] = Some (rows ! i))"
  using assms
proof (induction es arbitrary: rows)
  case Nil
  then show ?case by simp
next
  case (Cons e0 es)
  from Cons.prems obtain r rs where
    a: "intersect_outer m d0 d1 d e0 (conn m (d0, d) ! e0) [] = Some r"
    and b: "intersect_rows m d0 d1 d es = Some rs" and rows: "rows = r # rs"
    by (auto split: if_splits option.splits)
  from Cons.IH [OF b] a rows show ?case
    by (auto simp: nth_Cons split: nat.splits)
qed

lemma compute_from_intersection_rows:
  assumes "compute_from_intersection m d0 d1 d = Inr m'"
  shows "length (conn m' (d0, d1)) = num_entities m d0"
    and "e0 < num_entities m d0 \<Longrightarrow>
         intersect_outer m d0 d1 d e0 (conn m (d0, d) ! e0) [] = Some (conn m' (d0, d1) ! e0)"
proof -
  from assms obtain rows where r: "intersect_rows m d0 d1 d [0..<num_entities m d0] = Some rows"
    and s: "set_conn m (d0, d1) rows = Inr m'"
    by (auto simp: compute_from_intersection_def split: if_splits option.splits)
  from s have c: "conn m' (d0, d1) = rows"
    by (auto simp: set_conn_def split: if_splits)
  from intersect_rows_spec [OF r] c
  show "length (conn m' (d0, d1)) = num_entities m d0" by simp
  from intersect_rows_spec [OF r] c
  show "e0 < num_entities m d0 \<Longrightarrow>
         intersect_outer m d0 d1 d e0 (conn m (d0, d) ! e0) [] = Some (conn m' (d0, d1) ! e0)"
    by simp
qed

lemma intersection_row_set:
  assumes "compute_from_intersection m d0 d1 d = Inr m'" and "e0 < num_entities m d0"
  shows "set (conn m' (d0, d1) ! e0)
           = {e1 \<in> (\<Union>e \<in> set (conn m (d0, d) ! e0). set (conn m (d, d1) ! e)).
                if d0 = d1 then e1 \<noteq> e0
                else set (conn m (d1, 0) ! e1) \<subseteq> set (conn m (d0, 0) ! e0)}
         \<and> distinct (conn m' (d0, d1) ! e0)
         \<and> (d0 = d1 \<longrightarrow> e0 \<notin> set (conn m' (d0, d1) ! e0))"
proof -
  from compute_from_intersection_rows(2) [OF assms]
  have "intersect_outer m d0 d1 d e0 (conn m (d0, d) ! e0) [] = Some (conn m' (d0, d1) ! e0)" .
  from intersect_outer_spec [OF this] show ?thesis
    by (auto simp: retained_def)
qed

text \<open>
  Claim C5. In the incidence built by \<open>compute_from_intersection(d0, d1, d)\<close> the row of a
  source entity \<open>e0\<close> holds exactly the candidates \<open>e1\<close> reached through the two incidences
  that pass the filter: \<open>e1 \<noteq> e0\<close> when \<open>d0 = d1\<close>, and every vertex of \<open>e1\<close> among the
  vertices of \<open>e0\<close> otherwise. Each is collected once, so no row has duplicates, and no row
  contains its own source when \<open>d0 = d1\<close>.
\<close>

theorem intersection_row_contents:
  assumes "compute_from_intersection m d0 d1 d = Inr m'" and "e0 < num_entities m d0"
  shows "set (conn m' (d0, d1) ! e0)
           = {e1 \<in> (\<Union>e \<in> set (conn m (d0, d) ! e0). set (conn m (d, d1) ! e)).
                if d0 = d1 then e1 \<noteq> e0
                else set (conn m (d1, 0) ! e1) \<subseteq> set (conn m (d0, 0) ! e0)}
         \<and> distinct (conn m' (d0, d1) ! e0)
         \<and> (d0 = d1 \<longrightarrow> e0 \<notin> set (conn m' (d0, d1) ! e0))"
  using assms by (rule intersection_row_set)

theorem intersection_row_contents_witness:
  "\<exists>m'. compute_from_intersection triangle_with_edges 2 1 0 = Inr m'
     \<and> (0::nat) < num_entities triangle_with_edges 2
     \<and> conn m' (2, 1) ! 0 = [1, 2, 0]
     \<and> distinct (conn m' (2, 1) ! 0)"
proof -
  have "case compute_from_intersection triangle_with_edges 2 1 0 of
          Inr m' \<Rightarrow> conn m' (2, 1) ! 0 = [1, 2, 0] | Inl e \<Rightarrow> False"
    by code_simp
  then obtain m' where r: "compute_from_intersection triangle_with_edges 2 1 0 = Inr m'"
    and c: "conn m' (2, 1) ! 0 = [1, 2, 0]"
    by (auto split: sum.splits)
  have n: "(0::nat) < num_entities triangle_with_edges 2"
    by (simp add: triangle_with_edges_def)
  from intersection_row_contents [OF r n] r n c show ?thesis by blast
qed

section \<open>Rows built by the transpose\<close>

lemma sources_of_Nil [simp]: "sources_of [] i = []"
  by (simp add: sources_of_def)

lemma sources_of_append [simp]: "sources_of (ps @ qs) i = sources_of ps i @ sources_of qs i"
  by (simp add: sources_of_def)

lemma incidence_pairs_Nil [simp]: "incidence_pairs c [] = []"
  by (simp add: incidence_pairs_def)

lemma incidence_pairs_Cons:
  "incidence_pairs c (e1 # es) = map (\<lambda>e0. (e0, e1)) (c ! e1) @ incidence_pairs c es"
  by (simp add: incidence_pairs_def)

lemma progress_refl: "progress d0 d1 [] tm tm"
  by (simp add: progress_def)

lemma progress_trans:
  assumes "progress d0 d1 ps a b" and "progress d0 d1 qs b c"
  shows "progress d0 d1 (ps @ qs) a c"
  using assms unfolding progress_def by auto

lemma count_row_spec:
  assumes "count_row es tmp = Some tmp'"
  shows "length tmp' = length tmp
         \<and> (\<forall>i < length tmp. tmp' ! i = tmp ! i + length (filter (\<lambda>e0. e0 = i) es))"
  using assms
proof (induction es arbitrary: tmp)
  case Nil
  then show ?case by simp
next
  case (Cons e0 es)
  from Cons.prems have r: "count_row es (tmp[e0 := tmp ! e0 + 1]) = Some tmp'" and e0: "e0 < length tmp"
    by (auto split: if_splits)
  from Cons.IH [OF r] e0 show ?case
    by (auto simp: nth_list_update)
qed

lemma sources_of_row: "sources_of (map (\<lambda>e0. (e0, e1)) es) i = replicate (length (filter (\<lambda>e0. e0 = i) es)) e1"
  by (induction es) (auto simp: sources_of_def)

lemma count_connections_spec:
  assumes "count_connections c e1s tmp = Some tmp'"
  shows "length tmp' = length tmp
         \<and> (\<forall>i < length tmp. tmp' ! i = tmp ! i + length (sources_of (incidence_pairs c e1s) i))"
  using assms
proof (induction e1s arbitrary: tmp)
  case Nil
  then show ?case by simp
next
  case (Cons e1 es)
  from Cons.prems obtain t1 where a: "count_row (c ! e1) tmp = Some t1"
    and b: "count_connections c es t1 = Some tmp'"
    by (auto split: if_splits option.splits)
  from count_row_spec [OF a] Cons.IH [OF b] show ?case
    by (auto simp: incidence_pairs_Cons sources_of_row)
qed

lemma add_connection_progress:
  assumes "add_connection d0 d1 e1 pos tm = Inr tm'" and "d0 \<noteq> d1"
  shows "progress d0 d1 [(conn (snd tm) (d1, d0) ! e1 ! pos, e1)] tm tm'"
proof -
  define e0 where "e0 = conn (snd tm) (d1, d0) ! e1 ! pos"
  define tmp where "tmp = fst tm"
  define c where "c = conn (snd tm) (d0, d1)"
  from assms(1) have ok: "e0 < length tmp" "e0 < length c" "tmp ! e0 < length (c ! e0)"
    and tm': "tm' = (tmp[e0 := tmp ! e0 + 1],
                    (snd tm)\<lparr>conn := (conn (snd tm))((d0, d1) := c[e0 := (c ! e0)[tmp ! e0 := e1]])\<rparr>)"
    by (auto simp: add_connection_def Let_def e0_def tmp_def c_def split: if_splits)
  have w: "take (Suc (tmp ! e0)) ((c ! e0)[tmp ! e0 := e1]) = take (tmp ! e0) (c ! e0) @ [e1]"
    using ok(3) by (simp add: take_Suc_conv_app_nth)
  show ?thesis
    unfolding progress_def e0_def [symmetric]
    using assms(2) ok w
    by (auto simp: tm' tmp_def [symmetric] c_def [symmetric] written_def sources_of_def
        nth_list_update)
qed

lemma add_row_progress:
  assumes "add_row d0 d1 e1 ps tm = Inr tm'" and "d0 \<noteq> d1"
  shows "progress d0 d1 (map (\<lambda>pos. (conn (snd tm) (d1, d0) ! e1 ! pos, e1)) ps) tm tm'"
  using assms(1)
proof (induction ps arbitrary: tm)
  case Nil
  then show ?case by (simp add: progress_refl)
next
  case (Cons pos ps)
  from Cons.prems obtain t1 where a: "add_connection d0 d1 e1 pos tm = Inr t1"
    and b: "add_row d0 d1 e1 ps t1 = Inr tm'"
    by (auto split: sum.splits)
  have p1: "progress d0 d1 [(conn (snd tm) (d1, d0) ! e1 ! pos, e1)] tm t1"
    by (rule add_connection_progress [OF a assms(2)])
  then have same: "conn (snd t1) (d1, d0) = conn (snd tm) (d1, d0)"
    by (simp add: progress_def)
  from Cons.IH [OF b] same
  have p2: "progress d0 d1 (map (\<lambda>pos. (conn (snd tm) (d1, d0) ! e1 ! pos, e1)) ps) t1 tm'"
    by simp
  from progress_trans [OF p1 p2] show ?case by simp
qed

lemma add_connections_progress:
  assumes "add_connections d0 d1 es tm = Inr tm'" and "d0 \<noteq> d1"
  shows "progress d0 d1 (incidence_pairs (conn (snd tm) (d1, d0)) es) tm tm'"
  using assms(1)
proof (induction es arbitrary: tm)
  case Nil
  then show ?case by (simp add: progress_refl)
next
  case (Cons e1 es)
  define src where "src = conn (snd tm) (d1, d0)"
  from Cons.prems obtain t1 where
    a: "add_row d0 d1 e1 [0..<length (src ! e1)] tm = Inr t1"
    and b: "add_connections d0 d1 es t1 = Inr tm'"
    by (auto simp: src_def split: sum.splits if_splits)
  have "map (\<lambda>pos. (src ! e1 ! pos, e1)) [0..<length (src ! e1)]
        = map (\<lambda>e0. (e0, e1)) (map (\<lambda>pos. src ! e1 ! pos) [0..<length (src ! e1)])"
    by simp
  also have "\<dots> = map (\<lambda>e0. (e0, e1)) (src ! e1)"
    by (simp only: map_nth)
  finally have eq: "map (\<lambda>pos. (src ! e1 ! pos, e1)) [0..<length (src ! e1)]
        = map (\<lambda>e0. (e0, e1)) (src ! e1)" .
  from add_row_progress [OF a assms(2)] eq
  have p1: "progress d0 d1 (map (\<lambda>e0. (e0, e1)) (src ! e1)) tm t1"
    by (simp add: src_def)
  then have same: "conn (snd t1) (d1, d0) = src"
    by (simp add: progress_def src_def)
  from Cons.IH [OF b] same
  have p2: "progress d0 d1 (incidence_pairs src es) t1 tm'" by simp
  from progress_trans [OF p1 p2] show ?case
    by (simp add: incidence_pairs_Cons src_def)
qed

lemma compute_from_transpose_rows:
  assumes "compute_from_transpose m d0 d1 = Inr m'"
  shows "d0 \<noteq> d1"
    and "length (conn m' (d0, d1)) = num_entities m d0"
    and "i < num_entities m d0 \<Longrightarrow>
         conn m' (d0, d1) ! i
           = sources_of (incidence_pairs (conn m (d1, d0)) [0..<num_entities m d1]) i"
proof -
  define ps where "ps = incidence_pairs (conn m (d1, d0)) [0..<num_entities m d1]"
  from assms obtain tmp m1 tm where
    present: "conn_size (conn m (d1, d0)) > 0"
    and cnt: "count_connections (conn m (d1, d0)) [0..<num_entities m d1]
               (replicate (num_entities m d0) 0) = Some tmp"
    and s: "set_conn m (d0, d1) (init_sizes tmp) = Inr m1"
    and a: "add_connections d0 d1 [0..<num_entities m1 d1] (replicate (length tmp) 0, m1) = Inr tm"
    and m': "m' = snd tm"
    by (auto simp: compute_from_transpose_def split: if_splits option.splits sum.splits)
  from s have absent: "conn_size (conn m (d0, d1)) = 0"
    and m1: "m1 = m\<lparr>conn := (conn m)((d0, d1) := init_sizes tmp)\<rparr>"
    by (auto simp: set_conn_def split: if_splits)
  from present absent show ne: "d0 \<noteq> d1" by auto
  from count_connections_spec [OF cnt]
  have len: "length tmp = num_entities m d0"
    and tmp: "\<And>i. i < num_entities m d0 \<Longrightarrow> tmp ! i = length (sources_of ps i)"
    by (auto simp: ps_def)
  from ne have src: "conn m1 (d1, d0) = conn m (d1, d0)" and n1: "num_entities m1 d1 = num_entities m d1"
    by (auto simp: m1)
  from add_connections_progress [OF a ne] src n1
  have p: "progress d0 d1 ps (replicate (length tmp) 0, m1) tm"
    by (simp add: ps_def)
  have rows1: "conn m1 (d0, d1) = init_sizes tmp" by (simp add: m1)
  from p rows1 show "length (conn m' (d0, d1)) = num_entities m d0"
    by (simp add: progress_def m' init_sizes_def len)
  show "conn m' (d0, d1) ! i = sources_of (incidence_pairs (conn m (d1, d0)) [0..<num_entities m d1]) i"
    if i: "i < num_entities m d0"
  proof -
    from p i len have cur: "fst tm ! i = length (sources_of ps i)"
      and wr: "written (d0, d1) tm i = written (d0, d1) (replicate (length tmp) 0, m1) i @ sources_of ps i"
      and l: "length (conn (snd tm) (d0, d1) ! i) = length (conn m1 (d0, d1) ! i)"
      by (auto simp: progress_def)
    from i len have "length (conn m1 (d0, d1) ! i) = tmp ! i"
      by (simp add: rows1 init_sizes_def)
    with l tmp [OF i] cur have "fst tm ! i = length (conn (snd tm) (d0, d1) ! i)" by simp
    then have "written (d0, d1) tm i = conn (snd tm) (d0, d1) ! i"
      by (simp add: written_def)
    moreover from i len have "written (d0, d1) (replicate (length tmp) 0, m1) i = []"
      by (simp add: written_def)
    ultimately show ?thesis using wr by (simp add: m' ps_def)
  qed
qed

lemma distinct_filter_le_one: "distinct xs \<Longrightarrow> length (filter (\<lambda>x. x = i) xs) \<le> 1"
  by (induction xs) (auto simp: filter_empty_conv)

lemma count_connections_in_range:
  assumes "count_connections c e1s tmp = Some tmp'"
  shows "\<forall>e1 \<in> set e1s. e1 < length c"
  using assms
  by (induction e1s arbitrary: tmp) (auto split: if_splits option.splits)

lemma sources_of_sorted:
  assumes "sorted_wrt (<) e1s" and "\<forall>e1 \<in> set e1s. distinct (c ! e1)"
  shows "sorted_wrt (<) (sources_of (incidence_pairs c e1s) i)
         \<and> set (sources_of (incidence_pairs c e1s) i) \<subseteq> set e1s"
  using assms
proof (induction e1s)
  case Nil
  then show ?case by simp
next
  case (Cons e1 es)
  from Cons.prems have d: "distinct (c ! e1)" by simp
  then have "length (filter (\<lambda>e0. e0 = i) (c ! e1)) \<le> 1"
    by (rule distinct_filter_le_one)
  then have h: "sources_of (map (\<lambda>e0. (e0, e1)) (c ! e1)) i = [] \<or>
                sources_of (map (\<lambda>e0. (e0, e1)) (c ! e1)) i = [e1]"
    unfolding sources_of_row
    by (cases "length (filter (\<lambda>e0. e0 = i) (c ! e1))") auto
  from Cons.prems Cons.IH have ih: "sorted_wrt (<) (sources_of (incidence_pairs c es) i)"
    "set (sources_of (incidence_pairs c es) i) \<subseteq> set es"
    by auto
  from Cons.prems(1) have lt: "\<forall>y \<in> set es. e1 < y" by simp
  from h ih lt show ?case
    by (auto simp: incidence_pairs_Cons sorted_wrt_append)
qed

lemma set_sources_of:
  "set (sources_of (incidence_pairs c e1s) i) = {e1 \<in> set e1s. i \<in> set (c ! e1)}"
proof (induction e1s)
  case Nil
  then show ?case by simp
next
  case (Cons e1 es)
  have "set (sources_of (map (\<lambda>e0. (e0, e1)) (c ! e1)) i) = (if i \<in> set (c ! e1) then {e1} else {})"
    unfolding sources_of_row
    by (auto simp: filter_empty_conv)
  with Cons.IH show ?case
    by (auto simp: incidence_pairs_Cons)
qed

lemma sources_of_ascending:
  assumes "sorted_wrt (<) e1s"
  shows "sorted (sources_of (incidence_pairs c e1s) i)
         \<and> set (sources_of (incidence_pairs c e1s) i) \<subseteq> set e1s"
  using assms
proof (induction e1s)
  case Nil
  then show ?case by simp
next
  case (Cons e1 es)
  from Cons have ih: "sorted (sources_of (incidence_pairs c es) i)"
    "set (sources_of (incidence_pairs c es) i) \<subseteq> set es"
    by auto
  from Cons.prems have lt: "\<forall>y \<in> set es. e1 < y" by simp
  have le: "e1 \<le> x" if "x \<in> set (sources_of (incidence_pairs c es) i)" for x
  proof -
    from that ih(2) have "x \<in> set es" by blast
    with lt show ?thesis by (simp add: less_imp_le)
  qed
  from ih le show ?case
    by (auto simp: incidence_pairs_Cons sources_of_row sorted_append)
qed

text \<open>
  Claim C6, as the code has it. In every incidence produced by
  \<open>compute_from_transpose(d0, d1)\<close> the neighbours \<open>e1\<close> of each row \<open>e0\<close> appear in
  ascending order of \<open>e1\<close>, because the outer iteration runs over \<open>e1\<close> ascending. The
  order is strictly ascending when no row of the incidence \<open>(d1, d0)\<close> that is transposed
  repeats an entity: a row \<open>e1\<close> then contributes \<open>e1\<close> at most once to row \<open>e0\<close>.
\<close>

theorem transpose_rows_ascending:
  assumes "compute_from_transpose m d0 d1 = Inr m'"
  shows "(\<forall>r \<in> set (conn m' (d0, d1)). sorted r)
         \<and> ((\<forall>r \<in> set (conn m (d1, d0)). distinct r)
              \<longrightarrow> (\<forall>r \<in> set (conn m' (d0, d1)). sorted_wrt (<) r))"
proof -
  have row: "\<exists>i < num_entities m d0.
               r = sources_of (incidence_pairs (conn m (d1, d0)) [0..<num_entities m d1]) i"
    if "r \<in> set (conn m' (d0, d1))" for r
  proof -
    from that obtain i where i: "i < length (conn m' (d0, d1))" and r: "r = conn m' (d0, d1) ! i"
      by (auto simp: in_set_conv_nth)
    from i compute_from_transpose_rows(2) [OF assms] have i': "i < num_entities m d0" by simp
    from compute_from_transpose_rows(3) [OF assms i'] r i' show ?thesis by auto
  qed
  have asc: "\<forall>r \<in> set (conn m' (d0, d1)). sorted r"
  proof
    fix r assume "r \<in> set (conn m' (d0, d1))"
    from row [OF this] sources_of_ascending [of "[0..<num_entities m d1]" "conn m (d1, d0)"]
    show "sorted r" by auto
  qed
  have strict: "\<forall>r \<in> set (conn m' (d0, d1)). sorted_wrt (<) r"
    if d: "\<forall>r \<in> set (conn m (d1, d0)). distinct r"
  proof
    fix r assume "r \<in> set (conn m' (d0, d1))"
    from row [OF this] obtain i where
      r: "r = sources_of (incidence_pairs (conn m (d1, d0)) [0..<num_entities m d1]) i"
      by blast
    from assms obtain tmp where
      "count_connections (conn m (d1, d0)) [0..<num_entities m d1]
         (replicate (num_entities m d0) 0) = Some tmp"
      by (auto simp: compute_from_transpose_def split: if_splits option.splits)
    from count_connections_in_range [OF this] d
    have "\<forall>e1 \<in> set [0..<num_entities m d1]. distinct (conn m (d1, d0) ! e1)"
      by simp
    from sources_of_sorted [OF _ this, of i] r
    show "sorted_wrt (<) r" by simp
  qed
  from asc strict show ?thesis by blast
qed

theorem transpose_rows_ascending_witness:
  "\<exists>m'. compute_from_transpose two_triangles 0 2 = Inr m'
     \<and> (\<forall>r \<in> set (conn two_triangles (2, 0)). distinct r)
     \<and> conn m' (0, 2) = [[0], [0, 1], [0, 1], [1]]
     \<and> (\<forall>r \<in> set (conn m' (0, 2)). sorted r)
     \<and> (\<forall>r \<in> set (conn m' (0, 2)). sorted_wrt (<) r)"
proof -
  have "case compute_from_transpose two_triangles 0 2 of
          Inr m' \<Rightarrow> conn m' (0, 2) = [[0], [0, 1], [0, 1], [1]] | Inl e \<Rightarrow> False"
    by code_simp
  then obtain m' where r: "compute_from_transpose two_triangles 0 2 = Inr m'"
    and c: "conn m' (0, 2) = [[0], [0, 1], [0, 1], [1]]"
    by (auto split: sum.splits)
  have d: "\<forall>r \<in> set (conn two_triangles (2, 0)). distinct r"
    by (simp add: two_triangles_def)
  from transpose_rows_ascending [OF r] r d c show ?thesis by blast
qed

text \<open>
  The order is not strict in general: the second pass writes \<open>e1\<close> once for every
  occurrence of \<open>e0\<close> in row \<open>e1\<close>. For two cells with the vertices 0, 0, 1 and 1, 0, 1
  the cells of vertex 0 are 0, 0, 1 and those of vertex 1 are 0, 1, 1.
\<close>

theorem repeated_neighbour_counterexample:
  "built (compute_from_transpose repeated_vertex_cells 0 2) (0, 2) = Some [[0, 0, 1], [0, 1, 1]]
   \<and> \<not> sorted_wrt (<) [0::nat, 0, 1]"
  by code_simp

section \<open>The cell loop of entity synthesis\<close>

lemma tuples_of_append [simp]: "tuples_of (a @ b) c = tuples_of a c @ tuples_of b c"
  by (simp add: tuples_of_def)

lemma tuples_of_Nil [simp]: "tuples_of [] c = []"
  by (simp add: tuples_of_def)

lemma tuples_of_single [simp]: "tuples_of [(c', t)] c = (if c' = c then [t] else [])"
  by (simp add: tuples_of_def)

lemma find_other_entity_Some:
  "find_other_entity l t = Some i \<Longrightarrow> (i, t) \<in> set l"
  by (induction l) (auto split: if_splits)

lemma find_other_entity_None:
  "find_other_entity l t = None \<Longrightarrow> \<forall>p \<in> set l. snd p \<noteq> t"
  by (induction l) (auto split: if_splits)

lemma find_in_cells_Some:
  "find_in_cells cel c nbrs t = Some i \<Longrightarrow> \<exists>c0 \<in> set nbrs. c0 < c \<and> (i, t) \<in> set (cel ! c0)"
  by (induction nbrs) (auto split: if_splits option.splits dest: find_other_entity_Some)

lemma find_in_cells_None:
  "find_in_cells cel c nbrs t = None \<Longrightarrow>
     \<forall>c0 \<in> set nbrs. c0 < c \<longrightarrow> (\<forall>p \<in> set (cel ! c0). snd p \<noteq> t)"
  by (induction nbrs) (auto split: if_splits option.splits dest: find_other_entity_None)

lemma entity_body_basic:
  assumes "entity_body m c e s = Some s'" and "inv_basic visited N s" and "c < N"
  shows "inv_basic (visited @ [(c, sort e)]) N s'"
proof -
  define t where "t = sort e"
  define nbrs where "nbrs = conn m (tdim m, tdim m) ! c"
  from assms(2) have cur: "current_entity s = length (connectivity_ev s)"
    and lce: "length (connectivity_ce s) = N" and lcl: "length (ce_list s) = N"
    and ce: "\<And>c. c < N \<Longrightarrow> map (\<lambda>i. connectivity_ev s ! i) (connectivity_ce s ! c) = tuples_of visited c"
    and cei: "\<And>c i. c < N \<Longrightarrow> i \<in> set (connectivity_ce s ! c) \<Longrightarrow> i < length (connectivity_ev s)"
    and cl: "\<And>c p. c < N \<Longrightarrow> p \<in> set (ce_list s ! c) \<Longrightarrow>
           fst p < length (connectivity_ev s) \<and> connectivity_ev s ! fst p = snd p
           \<and> (c, snd p) \<in> set visited"
    unfolding inv_basic_def by blast+
  show ?thesis
  proof (cases "find_in_cells (ce_list s) c nbrs t")
    case (Some i)
    with assms(1) have s': "s' = s\<lparr>connectivity_ce := (connectivity_ce s)[c := connectivity_ce s ! c @ [i]]\<rparr>"
      by (auto simp: entity_body_def Let_def t_def nbrs_def split: if_splits)
    from find_in_cells_Some [OF Some] obtain c0 where c0: "c0 < c" "(i, t) \<in> set (ce_list s ! c0)"
      by blast
    with cl [of c0 "(i, t)"] assms(3) have i: "i < length (connectivity_ev s)" "connectivity_ev s ! i = t"
      by auto
    show ?thesis
      unfolding inv_basic_def s' t_def [symmetric]
      using cur lce lcl ce cei cl i assms(3)
      by (auto simp: nth_list_update)
  next
    case None
    with assms(1) have s': "s' = s\<lparr>ce_list := (ce_list s)[c := ce_list s ! c @ [(current_entity s, t)]],
                    connectivity_ce :=
                      (connectivity_ce s)[c := connectivity_ce s ! c @ [current_entity s]],
                    connectivity_ev := connectivity_ev s @ [t],
                    current_entity := current_entity s + 1\<rparr>"
      by (auto simp: entity_body_def Let_def t_def nbrs_def split: if_splits)
    have old: "map (\<lambda>i. (connectivity_ev s @ [t]) ! i) (connectivity_ce s ! c') = tuples_of visited c'"
      if "c' < N" for c'
    proof -
      have "map (\<lambda>i. (connectivity_ev s @ [t]) ! i) (connectivity_ce s ! c')
            = map (\<lambda>i. connectivity_ev s ! i) (connectivity_ce s ! c')"
        using cei [OF that] by (intro map_cong) (auto simp: nth_append)
      with ce [OF that] show ?thesis by simp
    qed
    have f: "current_entity s' = Suc (length (connectivity_ev s))"
      "connectivity_ev s' = connectivity_ev s @ [t]"
      "connectivity_ce s' = (connectivity_ce s)[c := connectivity_ce s ! c @ [length (connectivity_ev s)]]"
      "ce_list s' = (ce_list s)[c := ce_list s ! c @ [(length (connectivity_ev s), t)]]"
      by (simp_all add: s' cur)
    show ?thesis
      unfolding inv_basic_def f t_def [symmetric]
    proof (intro conjI allI impI ballI)
      show "Suc (length (connectivity_ev s)) = length (connectivity_ev s @ [t])" by simp
      show "length ((connectivity_ce s)[c := connectivity_ce s ! c @ [length (connectivity_ev s)]]) = N"
        using lce by simp
      show "length ((ce_list s)[c := ce_list s ! c @ [(length (connectivity_ev s), t)]]) = N"
        using lcl by simp
    next
      fix c' assume c': "c' < N"
      show "map (\<lambda>i. (connectivity_ev s @ [t]) ! i)
              ((connectivity_ce s)[c := connectivity_ce s ! c @ [length (connectivity_ev s)]] ! c')
            = tuples_of (visited @ [(c, t)]) c'"
      proof (cases "c' = c")
        case True
        with old [OF c'] lce c' show ?thesis by simp
      next
        case False
        with old [OF c'] lce c' show ?thesis by simp
      qed
    next
      fix c' i assume c': "c' < N"
        and i: "i \<in> set ((connectivity_ce s)[c := connectivity_ce s ! c @ [length (connectivity_ev s)]] ! c')"
      show "i < length (connectivity_ev s @ [t])"
      proof (cases "c' = c")
        case True
        with i lce c' have "i \<in> set (connectivity_ce s ! c) \<or> i = length (connectivity_ev s)"
          by auto
        with cei [OF assms(3)] show ?thesis by (auto simp: less_Suc_eq)
      next
        case False
        with i have "i \<in> set (connectivity_ce s ! c')" by simp
        with cei [OF c'] show ?thesis by (auto simp: less_Suc_eq)
      qed
    next
      fix c' p assume c': "c' < N"
        and p: "p \<in> set ((ce_list s)[c := ce_list s ! c @ [(length (connectivity_ev s), t)]] ! c')"
      have "p \<in> set (ce_list s ! c') \<or> (c' = c \<and> p = (length (connectivity_ev s), t))"
      proof (cases "c' = c")
        case True
        with p lcl c' show ?thesis by auto
      next
        case False
        with p show ?thesis by simp
      qed
      then have "fst p < length (connectivity_ev s @ [t])
          \<and> (connectivity_ev s @ [t]) ! fst p = snd p \<and> (c', snd p) \<in> set (visited @ [(c, t)])"
      proof
        assume "p \<in> set (ce_list s ! c')"
        from cl [OF c' this] show ?thesis by (auto simp: nth_append)
      next
        assume "c' = c \<and> p = (length (connectivity_ev s), t)"
        then show ?thesis by simp
      qed
      then show "fst p < length (connectivity_ev s @ [t])"
        and "(connectivity_ev s @ [t]) ! fst p = snd p"
        and "(c', snd p) \<in> set (visited @ [(c, t)])"
        by blast+
    qed
  qed
qed

lemma entities_loop_basic:
  assumes "entities_loop m c es s = Some s'" and "inv_basic visited N s" and "c < N"
  shows "inv_basic (visited @ map (\<lambda>e. (c, sort e)) es) N s'"
  using assms(1,2)
proof (induction es arbitrary: s visited)
  case Nil
  then show ?case by simp
next
  case (Cons e es)
  from Cons.prems(1) obtain s1 where a: "entity_body m c e s = Some s1"
    and b: "entities_loop m c es s1 = Some s'"
    by (auto split: option.splits)
  from Cons.IH [OF b entity_body_basic [OF a Cons.prems(2) assms(3)]] show ?case by simp
qed

lemma visit_cells_Cons: "visit_cells m d (c # cs) = visit_cell m d c @ visit_cells m d cs"
  by (simp add: visit_cells_def)

lemma sorted_candidates_Some:
  "create_entities m d (conn m (tdim m, 0) ! c) = Some es \<Longrightarrow>
     sorted_candidates m d c = map sort es"
  by (simp add: sorted_candidates_def)

lemma visit_cell_alt:
  "create_entities m d (conn m (tdim m, 0) ! c) = Some es \<Longrightarrow>
     visit_cell m d c = map (\<lambda>e. (c, sort e)) es"
  by (simp add: visit_cell_def sorted_candidates_def)

lemma cells_loop_created:
  assumes "cells_loop m d cs s = Inr s'" and "c \<in> set cs"
  shows "\<exists>es. create_entities m d (conn m (tdim m, 0) ! c) = Some es"
  using assms
  by (induction cs arbitrary: s) (auto split: if_splits option.splits)

lemma cells_loop_basic:
  assumes "cells_loop m d cs s = Inr s'" and "inv_basic visited N s" and "\<forall>c \<in> set cs. c < N"
  shows "inv_basic (visited @ visit_cells m d cs) N s'"
  using assms
proof (induction cs arbitrary: s visited)
  case Nil
  then show ?case by (simp add: visit_cells_def)
next
  case (Cons c cs)
  from Cons.prems(1) obtain es s1 where
    cr: "create_entities m d (conn m (tdim m, 0) ! c) = Some es"
    and a: "entities_loop m c es s = Some s1"
    and b: "cells_loop m d cs s1 = Inr s'"
    by (auto split: if_splits option.splits)
  from Cons.prems(3) have c: "c < N" and cs: "\<forall>c \<in> set cs. c < N" by auto
  from entities_loop_basic [OF a Cons.prems(2) c]
  have "inv_basic (visited @ visit_cell m d c) N s1" by (simp add: visit_cell_alt [OF cr])
  from Cons.IH [OF b this cs] show ?case by (simp add: visit_cells_Cons)
qed

lemma inv_basic_initial: "inv_basic [] (num_entities m (tdim m)) (initial_state m)"
  by (simp add: inv_basic_def initial_state_def)

lemma tuples_of_visit_cells:
  assumes "distinct cs" and "c \<in> set cs"
  shows "tuples_of (visit_cells m d cs) c = sorted_candidates m d c"
  using assms
proof (induction cs)
  case Nil
  then show ?case by simp
next
  case (Cons a cs)
  have other: "tuples_of (visit_cell m d a) c = []" if "a \<noteq> c" for a
    using that by (simp add: tuples_of_def visit_cell_def filter_empty_conv)
  have same: "tuples_of (visit_cell m d c) c = sorted_candidates m d c"
    by (simp add: tuples_of_def visit_cell_def comp_def)
  have absent: "tuples_of (visit_cells m d cs) c = []" if "c \<notin> set cs"
    using that by (induction cs) (auto simp: visit_cells_Cons other visit_cells_def)
  from Cons show ?case
    by (cases "a = c") (auto simp: visit_cells_Cons other same absent)
qed

lemma build_entities_basic:
  assumes "build_entities m d = Inr (n, m')" and "d \<noteq> 0" and "c < num_entities m (tdim m)"
  shows "map (\<lambda>i. conn m' (d, 0) ! i) (conn m' (tdim m, d) ! c) = sorted_candidates m d c"
    and "\<forall>i \<in> set (conn m' (tdim m, d) ! c). i < n"
    and "length (conn m' (d, 0)) = n"
proof -
  from assms(1) obtain s where
    loop: "cells_loop m d [0..<num_entities m (tdim m)] (initial_state m) = Inr s"
    and st: "store_entities m d s = Inr (n, m')"
    by (auto simp: build_entities_def split: sum.splits)
  from cells_loop_basic [OF loop inv_basic_initial]
  have inv: "inv_basic (visit_cells m d [0..<num_entities m (tdim m)]) (num_entities m (tdim m)) s"
    by simp
  from st assms(2) have ce: "conn m' (tdim m, d) = connectivity_ce s"
    and ev: "conn m' (d, 0) = connectivity_ev s" and n: "n = length (connectivity_ev s)"
    by (auto simp: store_entities_def set_conn_def topology_init_def Let_def
        split: if_splits sum.splits)
  from inv assms(3) tuples_of_visit_cells [of "[0..<num_entities m (tdim m)]" c m d]
  show "map (\<lambda>i. conn m' (d, 0) ! i) (conn m' (tdim m, d) ! c) = sorted_candidates m d c"
    by (simp add: inv_basic_def ce ev)
  from inv assms(3) show "\<forall>i \<in> set (conn m' (tdim m, d) ! c). i < n"
    by (simp add: inv_basic_def ce n)
  from ev n show "length (conn m' (d, 0)) = n" by simp
qed

lemma entity_body_full:
  assumes step: "entity_body m c e s = Some s'"
    and basic: "inv_basic visited N s" and full: "inv_full visited N s" and c: "c < N"
    and ordered: "\<forall>p \<in> set visited. fst p \<le> c"
    and newslot: "(c, sort e) \<notin> set visited"
    and adj: "\<forall>c0 < c. (c0, sort e) \<in> set visited \<longrightarrow> c0 \<in> set (conn m (tdim m, tdim m) ! c)"
  shows "inv_full (visited @ [(c, sort e)]) N s'"
proof -
  define t where "t = sort e"
  define nbrs where "nbrs = conn m (tdim m, tdim m) ! c"
  define ev where "ev = connectivity_ev s"
  from basic have cur: "current_entity s = length ev"
    and lcl: "length (ce_list s) = N"
    and cl: "\<And>c p. c < N \<Longrightarrow> p \<in> set (ce_list s ! c) \<Longrightarrow>
           fst p < length ev \<and> ev ! fst p = snd p \<and> (c, snd p) \<in> set visited"
    unfolding inv_basic_def ev_def by blast+
  from full have creator: "\<And>i. i < length ev \<Longrightarrow> \<exists>c < N. (i, ev ! i) \<in> set (ce_list s ! c)"
    and dist: "distinct ev" and all: "set ev = snd ` set visited"
    unfolding inv_full_def ev_def by blast+
  show ?thesis
  proof (cases "find_in_cells (ce_list s) c nbrs t")
    case (Some i)
    with step have s': "s' = s\<lparr>connectivity_ce := (connectivity_ce s)[c := connectivity_ce s ! c @ [i]]\<rparr>"
      by (auto simp: entity_body_def Let_def t_def nbrs_def split: if_splits)
    from find_in_cells_Some [OF Some] obtain c0 where c0: "c0 < c" "(i, t) \<in> set (ce_list s ! c0)"
      by blast
    with cl [of c0 "(i, t)"] c have "i < length ev" "ev ! i = t" by auto
    then have "t \<in> set ev" by (auto simp: in_set_conv_nth)
    with creator dist all show ?thesis
      unfolding inv_full_def s' t_def [symmetric] by (auto simp: ev_def)
  next
    case None
    with step have s': "s' = s\<lparr>ce_list := (ce_list s)[c := ce_list s ! c @ [(current_entity s, t)]],
                    connectivity_ce :=
                      (connectivity_ce s)[c := connectivity_ce s ! c @ [current_entity s]],
                    connectivity_ev := ev @ [t],
                    current_entity := current_entity s + 1\<rparr>"
      by (auto simp: entity_body_def Let_def t_def nbrs_def ev_def split: if_splits)
    have f: "connectivity_ev s' = ev @ [t]"
      "ce_list s' = (ce_list s)[c := ce_list s ! c @ [(length ev, t)]]"
      by (simp_all add: s' cur)
    have fresh: "t \<notin> set ev"
    proof
      assume "t \<in> set ev"
      then obtain i where i: "i < length ev" "ev ! i = t" by (auto simp: in_set_conv_nth)
      from creator [OF i(1)] i(2) obtain c0 where c0: "c0 < N" "(i, t) \<in> set (ce_list s ! c0)"
        by auto
      from cl [OF this] have v: "(c0, t) \<in> set visited" by simp
      with ordered have "c0 \<le> c" by force
      moreover from v newslot have "c0 \<noteq> c" by (auto simp: t_def)
      ultimately have lt: "c0 < c" by simp
      with adj v have "c0 \<in> set nbrs" by (simp add: t_def nbrs_def)
      with find_in_cells_None [OF None] lt c0(2) show False by force
    qed
    show ?thesis
      unfolding inv_full_def f t_def [symmetric]
    proof (intro conjI allI impI)
      fix i assume "i < length (ev @ [t])"
      then consider "i < length ev" | "i = length ev" by fastforce
      then show "\<exists>c' < N. (i, (ev @ [t]) ! i)
                  \<in> set ((ce_list s)[c := ce_list s ! c @ [(length ev, t)]] ! c')"
      proof cases
        case 1
        from creator [OF 1] obtain c0 where c0: "c0 < N" "(i, ev ! i) \<in> set (ce_list s ! c0)"
          by blast
        then have "(i, ev ! i) \<in> set ((ce_list s)[c := ce_list s ! c @ [(length ev, t)]] ! c0)"
          using lcl by (cases "c0 = c") auto
        with 1 c0(1) show ?thesis by (auto simp: nth_append)
      next
        case 2
        with c lcl show ?thesis by (intro exI [of _ c]) simp
      qed
    next
      show "distinct (ev @ [t])" using dist fresh by simp
      show "set (ev @ [t]) = snd ` set (visited @ [(c, t)])" using all by auto
    qed
  qed
qed

lemma entities_loop_full:
  assumes "entities_loop m c es s = Some s'"
    and "inv_basic visited N s" and "inv_full visited N s" and c: "c < N"
    and "\<forall>p \<in> set visited. fst p \<le> c"
    and "distinct (map sort es)" and "\<forall>e \<in> set es. (c, sort e) \<notin> set visited"
    and adj: "\<forall>c0 < c. \<forall>e \<in> set es. (c0, sort e) \<in> set visited
               \<longrightarrow> c0 \<in> set (conn m (tdim m, tdim m) ! c)"
  shows "inv_full (visited @ map (\<lambda>e. (c, sort e)) es) N s'"
  using assms(1-3,5-8)
proof (induction es arbitrary: s visited)
  case Nil
  then show ?case by simp
next
  case (Cons e es)
  from Cons.prems(1) obtain s1 where a: "entity_body m c e s = Some s1"
    and b: "entities_loop m c es s1 = Some s'"
    by (auto split: option.splits)
  have b1: "inv_basic (visited @ [(c, sort e)]) N s1"
    by (rule entity_body_basic [OF a Cons.prems(2) c])
  have f1: "inv_full (visited @ [(c, sort e)]) N s1"
    using Cons.prems(4,6,7) by (intro entity_body_full [OF a Cons.prems(2,3) c]) auto
  have "inv_full ((visited @ [(c, sort e)]) @ map (\<lambda>e. (c, sort e)) es) N s'"
  proof (rule Cons.IH [OF b b1 f1])
    show "\<forall>p \<in> set (visited @ [(c, sort e)]). fst p \<le> c" using Cons.prems(4) by auto
    show "distinct (map sort es)" using Cons.prems(5) by simp
    show "\<forall>e' \<in> set es. (c, sort e') \<notin> set (visited @ [(c, sort e)])"
      using Cons.prems(5,6) by (auto simp: image_iff)
    show "\<forall>c0 < c. \<forall>e' \<in> set es. (c0, sort e') \<in> set (visited @ [(c, sort e)])
            \<longrightarrow> c0 \<in> set (conn m (tdim m, tdim m) ! c)"
      using Cons.prems(7) by auto
  qed
  then show ?case by simp
qed

lemma set_visit_cells:
  "set (visit_cells m d cs) = {(c, t). c \<in> set cs \<and> t \<in> set (sorted_candidates m d c)}"
  by (auto simp: visit_cells_def visit_cell_def)

lemma cells_loop_full:
  assumes "cells_loop m d cs s = Inr s'"
    and "inv_basic visited N s" and "inv_full visited N s"
    and "sorted_wrt (<) cs" and "\<forall>c \<in> set cs. c < N"
    and "\<forall>p \<in> set visited. \<forall>c \<in> set cs. fst p < c"
    and "\<forall>p \<in> set visited. snd p \<in> set (sorted_candidates m d (fst p))"
    and "\<forall>c \<in> set cs. distinct (sorted_candidates m d c)"
    and sf: "\<forall>c \<in> set cs. \<forall>c0 < c.
        set (sorted_candidates m d c0) \<inter> set (sorted_candidates m d c) \<noteq> {}
        \<longrightarrow> c0 \<in> set (conn m (tdim m, tdim m) ! c)"
  shows "inv_full (visited @ visit_cells m d cs) N s'"
  using assms
proof (induction cs arbitrary: s visited)
  case Nil
  then show ?case by (simp add: visit_cells_def)
next
  case (Cons c cs)
  from Cons.prems(1) obtain es s1 where
    cr: "create_entities m d (conn m (tdim m, 0) ! c) = Some es"
    and a: "entities_loop m c es s = Some s1"
    and b: "cells_loop m d cs s1 = Inr s'"
    by (auto split: if_splits option.splits)
  have sc: "sorted_candidates m d c = map sort es"
    by (rule sorted_candidates_Some [OF cr])
  from Cons.prems(5) have c: "c < N" and cs: "\<forall>c \<in> set cs. c < N" by auto
  have vc: "visit_cell m d c = map (\<lambda>e. (c, sort e)) es"
    by (rule visit_cell_alt [OF cr])
  have b1: "inv_basic (visited @ visit_cell m d c) N s1"
    unfolding vc by (rule entities_loop_basic [OF a Cons.prems(2) c])
  have f1: "inv_full (visited @ visit_cell m d c) N s1"
    unfolding vc
  proof (rule entities_loop_full [OF a Cons.prems(2,3) c])
    show "\<forall>p \<in> set visited. fst p \<le> c" using Cons.prems(6) by (auto intro: less_imp_le)
    show "distinct (map sort es)" using Cons.prems(8) sc by simp
    show "\<forall>e \<in> set es. (c, sort e) \<notin> set visited" using Cons.prems(6) by force
    show "\<forall>c0 < c. \<forall>e \<in> set es. (c0, sort e) \<in> set visited
            \<longrightarrow> c0 \<in> set (conn m (tdim m, tdim m) ! c)"
    proof (intro allI impI ballI)
      fix c0 e assume c0: "c0 < c" and e: "e \<in> set es" and v: "(c0, sort e) \<in> set visited"
      from v Cons.prems(7) have "sort e \<in> set (sorted_candidates m d c0)" by force
      moreover from e have "sort e \<in> set (sorted_candidates m d c)" by (simp add: sc)
      ultimately have "set (sorted_candidates m d c0) \<inter> set (sorted_candidates m d c) \<noteq> {}"
        by blast
      with Cons.prems(9) c0 show "c0 \<in> set (conn m (tdim m, tdim m) ! c)" by simp
    qed
  qed
  have "inv_full ((visited @ visit_cell m d c) @ visit_cells m d cs) N s'"
  proof (rule Cons.IH [OF b b1 f1 _ cs])
    show "sorted_wrt (<) cs" using Cons.prems(4) by simp
    show "\<forall>p \<in> set (visited @ visit_cell m d c). \<forall>c' \<in> set cs. fst p < c'"
      using Cons.prems(4,6) by (auto simp: visit_cell_def)
    show "\<forall>p \<in> set (visited @ visit_cell m d c). snd p \<in> set (sorted_candidates m d (fst p))"
      using Cons.prems(7) by (auto simp: visit_cell_def)
    show "\<forall>c \<in> set cs. distinct (sorted_candidates m d c)" using Cons.prems(8) by simp
    show "\<forall>c \<in> set cs. \<forall>c0 < c.
        set (sorted_candidates m d c0) \<inter> set (sorted_candidates m d c) \<noteq> {}
        \<longrightarrow> c0 \<in> set (conn m (tdim m, tdim m) ! c)"
      using Cons.prems(9) by simp
  qed
  then show ?case by (simp add: visit_cells_Cons)
qed

lemma inv_full_initial: "inv_full [] N (initial_state m)"
  by (simp add: inv_full_def initial_state_def)

lemma build_entities_full:
  assumes "build_entities m d = Inr (n, m')" and "d \<noteq> 0"
    and "\<forall>c < num_entities m (tdim m). distinct (sorted_candidates m d c)"
    and "shared_found m d"
  shows "distinct (conn m' (d, 0))"
    and "set (conn m' (d, 0)) = (\<Union>c < num_entities m (tdim m). set (sorted_candidates m d c))"
proof -
  define N where "N = num_entities m (tdim m)"
  from assms(1) obtain s where
    loop: "cells_loop m d [0..<N] (initial_state m) = Inr s"
    and st: "store_entities m d s = Inr (n, m')"
    by (auto simp: build_entities_def N_def split: sum.splits)
  have "inv_full ([] @ visit_cells m d [0..<N]) N s"
  proof (rule cells_loop_full [OF loop _ inv_full_initial])
    show "inv_basic [] N (initial_state m)" unfolding N_def by (rule inv_basic_initial)
    show "\<forall>c \<in> set [0..<N]. distinct (sorted_candidates m d c)" using assms(3) by (simp add: N_def)
    show "\<forall>c \<in> set [0..<N]. \<forall>c0 < c.
        set (sorted_candidates m d c0) \<inter> set (sorted_candidates m d c) \<noteq> {}
        \<longrightarrow> c0 \<in> set (conn m (tdim m, tdim m) ! c)"
      using assms(4) by (simp add: shared_found_def N_def)
  qed simp_all
  then have inv: "inv_full (visit_cells m d [0..<N]) N s" by simp
  from st assms(2) have ev: "conn m' (d, 0) = connectivity_ev s"
    by (auto simp: store_entities_def set_conn_def topology_init_def Let_def
        split: if_splits sum.splits)
  from inv ev show "distinct (conn m' (d, 0))" by (simp add: inv_full_def)
  from inv ev show "set (conn m' (d, 0)) = (\<Union>c < num_entities m (tdim m). set (sorted_candidates m d c))"
    by (auto simp: inv_full_def set_visit_cells N_def image_iff)
qed

section \<open>Cell adjacency and the identity of entities\<close>

lemma cell_adjacency_present:
  assumes run: "compute_connectivity f m (tdim m) (tdim m) = Some (Inr m1)"
    and cells: "0 < num_entities m1 (tdim m)"
  shows "0 < conn_size (conn m1 (tdim m, tdim m))"
proof (cases "conn_size (conn m (tdim m, tdim m)) > 0")
  case True
  from run obtain g where f: "f = Suc g"
    by (cases f) (auto simp: compute_connectivity.simps)
  from run True show ?thesis by (simp add: f compute_connectivity_Suc)
next
  case False
  from run obtain g where f: "f = Suc g"
    by (cases f) (auto simp: compute_connectivity.simps)
  from run False obtain ma mb where
    "ensure_entities g m (tdim m) = Some (Inr ma)" "ensure_entities g ma (tdim m) = Some (Inr mb)"
    and rest: "(if num_entities mb (tdim m) = 0 \<and> num_entities mb (tdim m) = 0 then Some (Inr mb)
           else if conn_size (conn mb (tdim m, tdim m)) > 0 then Some (Inr mb)
           else dispatch g mb (tdim m) (tdim m)) = Some (Inr m1)"
    by (auto simp: f compute_connectivity_Suc elim!: and_then_Inr)
  show ?thesis
  proof (cases "num_entities mb (tdim m) = 0")
    case True
    with rest cells show ?thesis by simp
  next
    case nz: False
    show ?thesis
    proof (cases "conn_size (conn mb (tdim m, tdim m)) > 0")
      case True
      with rest nz show ?thesis by simp
    next
      case False
      with rest nz have "dispatch g mb (tdim m) (tdim m) = Some (Inr m1)" by simp
      then obtain md d where i: "compute_from_intersection md (tdim m) (tdim m) d = Inr m1"
        by (auto simp: dispatch_def Let_def split: if_splits elim!: and_then_Inr)
      from compute_from_intersection_rows(1) [OF i] compute_from_intersection_frame [OF i] cells
      show ?thesis by (simp add: conn_size_def)
    qed
  qed
qed

lemma cc_cells_cells_cases:
  assumes c: "constructed m" and run: "compute_connectivity f m (tdim m) (tdim m) = Some (Inr m1)"
  shows "(m1 = m \<and> conn_size (conn m (tdim m, tdim m)) > 0) \<or>
         (conn_size (conn m (tdim m, tdim m)) = 0 \<and> 0 < tdim m \<and>
          (\<exists>md. ((md = m \<and> conn_size (conn m (0, tdim m)) > 0)
                 \<or> compute_from_transpose m 0 (tdim m) = Inr md)
                \<and> compute_from_intersection md (tdim m) (tdim m) 0 = Inr m1))"
proof (cases "conn_size (conn m (tdim m, tdim m)) > 0")
  case True
  from run obtain g where f: "f = Suc g"
    by (cases f) (auto simp: compute_connectivity.simps)
  from run True show ?thesis by (simp add: f compute_connectivity_Suc)
next
  case False
  with c have D: "0 < tdim m" by (cases "tdim m = 0") (auto simp: constructed_def)
  from c have n: "num_entities m 0 > 0" "num_entities m (tdim m) > 0"
    and p: "conn_size (conn m (tdim m, 0)) > 0"
    by (auto simp: constructed_def)
  from run obtain g where f: "f = Suc g"
    by (cases f) (auto simp: compute_connectivity.simps)
  from run False n have "dispatch g m (tdim m) (tdim m) = Some (Inr m1)"
    by (simp add: f compute_connectivity_Suc ensure_present and_then_def)
  with D have chain: "and_then (compute_connectivity g m (tdim m) 0)
        (\<lambda>mc. and_then (compute_connectivity g mc 0 (tdim m))
          (\<lambda>md. Some (compute_from_intersection md (tdim m) (tdim m) 0))) = Some (Inr m1)"
    by (simp add: dispatch_def)
  then obtain mc md where
    a: "compute_connectivity g m (tdim m) 0 = Some (Inr mc)"
    and b: "compute_connectivity g mc 0 (tdim m) = Some (Inr md)"
    and i: "compute_from_intersection md (tdim m) (tdim m) 0 = Inr m1"
    by (auto elim!: and_then_Inr)
  from a obtain h where g: "g = Suc h"
    by (cases g) (auto simp: compute_connectivity.simps)
  from a p have mc: "mc = m" by (simp add: g compute_connectivity_Suc)
  have "(md = m \<and> conn_size (conn m (0, tdim m)) > 0) \<or> compute_from_transpose m 0 (tdim m) = Inr md"
  proof (cases "conn_size (conn m (0, tdim m)) > 0")
    case True
    with b show ?thesis by (simp add: mc g compute_connectivity_Suc)
  next
    case False
    with b n have "dispatch h m 0 (tdim m) = Some (Inr md)"
      by (simp add: mc g compute_connectivity_Suc ensure_present and_then_def)
    with D have t: "and_then (compute_connectivity h m (tdim m) 0)
          (\<lambda>mc. Some (compute_from_transpose mc 0 (tdim m))) = Some (Inr md)"
      by (simp add: dispatch_def)
    then obtain mc' where a': "compute_connectivity h m (tdim m) 0 = Some (Inr mc')"
      and t': "compute_from_transpose mc' 0 (tdim m) = Inr md"
      by (auto elim!: and_then_Inr)
    from a' obtain h' where "h = Suc h'"
      by (cases h) (auto simp: compute_connectivity.simps)
    with a' p have "mc' = m" by (simp add: compute_connectivity_Suc)
    with t' show ?thesis by simp
  qed
  with False D i show ?thesis by blast
qed

lemma count_row_bound:
  "count_row es tmp = Some tmp' \<Longrightarrow> \<forall>e0 \<in> set es. e0 < length tmp"
proof (induction es arbitrary: tmp)
  case Nil
  then show ?case by simp
next
  case (Cons e0 es)
  from Cons.prems have r: "count_row es (tmp[e0 := tmp ! e0 + 1]) = Some tmp'" and e0: "e0 < length tmp"
    by (auto split: if_splits)
  from Cons.IH [OF r] e0 show ?case by simp
qed

lemma count_connections_bound:
  "count_connections c e1s tmp = Some tmp' \<Longrightarrow> \<forall>e1 \<in> set e1s. \<forall>e0 \<in> set (c ! e1). e0 < length tmp"
proof (induction e1s arbitrary: tmp)
  case Nil
  then show ?case by simp
next
  case (Cons e1 es)
  from Cons.prems obtain t1 where a: "count_row (c ! e1) tmp = Some t1"
    and b: "count_connections c es t1 = Some tmp'"
    by (auto split: if_splits option.splits)
  from count_row_spec [OF a] have "length t1 = length tmp" by simp
  with count_row_bound [OF a] Cons.IH [OF b] show ?case by simp
qed

lemma transpose_complete:
  assumes "compute_from_transpose m d0 d1 = Inr m'" and "e1 < num_entities m d1"
    and "e0 \<in> set (conn m (d1, d0) ! e1)"
  shows "e1 \<in> set (conn m' (d0, d1) ! e0)"
proof -
  from assms(1) obtain tmp where
    "count_connections (conn m (d1, d0)) [0..<num_entities m d1]
       (replicate (num_entities m d0) 0) = Some tmp"
    by (auto simp: compute_from_transpose_def split: if_splits option.splits)
  from count_connections_bound [OF this] assms(2,3) have "e0 < num_entities m d0" by auto
  from compute_from_transpose_rows(3) [OF assms(1) this] assms(2,3) show ?thesis
    by (simp add: set_sources_of)
qed

lemma cell_adjacency:
  assumes c: "constructed m" and ok: "adjacency_ok m"
    and run: "compute_connectivity f m (tdim m) (tdim m) = Some (Inr m1)"
    and c1: "c1 < num_entities m (tdim m)" and c0: "c0 < num_entities m (tdim m)" and ne: "c0 \<noteq> c1"
    and sh: "set (conn m (tdim m, 0) ! c0) \<inter> set (conn m (tdim m, 0) ! c1) \<noteq> {}"
  shows "c0 \<in> set (conn m1 (tdim m, tdim m) ! c1)"
proof -
  from sh obtain v where v0: "v \<in> set (conn m (tdim m, 0) ! c0)"
    and v1: "v \<in> set (conn m (tdim m, 0) ! c1)"
    by blast
  have final: ?thesis
    if int: "compute_from_intersection md (tdim m) (tdim m) 0 = Inr m1"
      and md: "num_entities md = num_entities m" "conn md (tdim m, 0) = conn m (tdim m, 0)"
        "c0 \<in> set (conn md (0, tdim m) ! v)"
    for md
  proof -
    from c1 md have "c1 < num_entities md (tdim m)" by simp
    from intersection_row_set [OF int this] md v1 ne
    show ?thesis by auto
  qed
  from cc_cells_cells_cases [OF c run] show ?thesis
  proof (elim disjE conjE exE)
    assume "m1 = m" and "0 < conn_size (conn m (tdim m, tdim m))"
    with ok c1 c0 ne sh show ?thesis by (simp add: adjacency_ok_def)
  next
    fix md
    assume int: "compute_from_intersection md (tdim m) (tdim m) 0 = Inr m1"
      and "md = m" and "0 < conn_size (conn m (0, tdim m))"
    with ok c0 v0 show ?thesis by (intro final [OF int]) (simp_all add: adjacency_ok_def)
  next
    fix md
    assume D: "0 < tdim m"
      and int: "compute_from_intersection md (tdim m) (tdim m) 0 = Inr m1"
      and t: "compute_from_transpose m 0 (tdim m) = Inr md"
    from D have k: "(tdim m, 0) \<noteq> (0, tdim m)" by simp
    from transpose_complete [OF t c0 v0] have "c0 \<in> set (conn md (0, tdim m) ! v)" .
    with compute_from_transpose_frame [OF t] k show ?thesis by (intro final [OF int]) simp_all
  qed
qed

lemma create_entities_extends:
  assumes "constructed m" and "extends m m1"
  shows "create_entities m1 d (conn m1 (tdim m1, 0) ! c) = create_entities m d (conn m (tdim m, 0) ! c)"
proof -
  from assms have "conn m1 (tdim m, 0) = conn m (tdim m, 0)"
    by (intro extends_conn) (simp_all add: constructed_def)
  with extends_tdim [OF assms(2)] extends_cell [OF assms(2)] show ?thesis
    by (simp add: create_entities_def)
qed

lemma sorted_candidates_extends:
  assumes "constructed m" and "extends m m1"
  shows "sorted_candidates m1 d c = sorted_candidates m d c"
  using create_entities_extends [OF assms] by (simp add: sorted_candidates_def)

lemma create_entities_length:
  "create_entities m d vertices = Some es \<Longrightarrow> length es = length (cell_entities m d)"
  by (auto simp: create_entities_def split: if_splits)

lemma build_entities_created:
  assumes "build_entities m d = Inr (n, m')" and "c < num_entities m (tdim m)"
  shows "\<exists>es. create_entities m d (conn m (tdim m, 0) ! c) = Some es"
proof -
  from assms(1) obtain s where
    "cells_loop m d [0..<num_entities m (tdim m)] (initial_state m) = Inr s"
    by (auto simp: build_entities_def split: sum.splits)
  from cells_loop_created [OF this, of c] assms(2) show ?thesis by simp
qed

lemma fresh_entities_built:
  assumes run: "compute_entities fuel m d = Some (Inr (n, m'))" and fresh: "num_entities m d = 0"
    and c: "constructed m"
  obtains g m1 where "compute_connectivity g m (tdim m) (tdim m) = Some (Inr m1)"
    and "build_entities m1 d = Inr (n, m')" and "extends m m1" and "constructed m1"
    and "tdim m1 = tdim m" and "num_entities m1 (tdim m) = num_entities m (tdim m)"
    and "d \<noteq> 0"
proof -
  from run fresh obtain g m1 where cc: "compute_connectivity g m (tdim m) (tdim m) = Some (Inr m1)"
    and b: "build_entities m1 d = Inr (n, m')"
    by (rule compute_entities_fresh)
  have e: "extends m m1" by (rule compute_connectivity_extends [OF cc])
  have c1: "constructed m1" by (rule constructed_extends [OF c e])
  have n: "num_entities m1 (tdim m) = num_entities m (tdim m)"
    using c by (intro extends_num [OF e]) (simp add: constructed_def)
  have "d \<noteq> 0"
  proof
    assume "d = 0"
    with fresh c show False by (simp add: constructed_def)
  qed
  with cc b e c1 n extends_tdim [OF e] that show thesis by blast
qed

lemma stored_vertices_of_slot:
  assumes run: "compute_entities fuel m d = Some (Inr (n, m'))" and fresh: "num_entities m d = 0"
    and c: "constructed m"
    and cell: "c0 < num_entities m (tdim m)" and slot: "k < length (cell_entities m d)"
  shows "conn m' (tdim m, d) ! c0 ! k < n"
    and "conn m' (d, 0) ! (conn m' (tdim m, d) ! c0 ! k) = sorted_candidates m d c0 ! k"
    and "length (conn m' (d, 0)) = n"
    and "\<exists>es. create_entities m d (conn m (tdim m, 0) ! c0) = Some es
              \<and> sorted_candidates m d c0 ! k = sort (es ! k)"
proof -
  from run fresh c obtain g m1 where b: "build_entities m1 d = Inr (n, m')"
    and e: "extends m m1" and D: "tdim m1 = tdim m"
    and N: "num_entities m1 (tdim m) = num_entities m (tdim m)" and d: "d \<noteq> 0"
    by (rule fresh_entities_built)
  from cell N D have cell1: "c0 < num_entities m1 (tdim m1)" by simp
  from build_entities_created [OF b cell1] create_entities_extends [OF c e, of d c0]
  obtain es where es: "create_entities m d (conn m (tdim m, 0) ! c0) = Some es"
    by auto
  have sc: "sorted_candidates m d c0 = map sort es"
    by (rule sorted_candidates_Some [OF es])
  from create_entities_length [OF es] slot have kes: "k < length es" by simp
  note basic = build_entities_basic [OF b d cell1]
  from basic(1) have m: "map (\<lambda>i. conn m' (d, 0) ! i) (conn m' (tdim m, d) ! c0)
                         = sorted_candidates m d c0"
    by (simp add: D sorted_candidates_extends [OF c e])
  then have "length (conn m' (tdim m, d) ! c0) = length (sorted_candidates m d c0)"
    by (metis length_map)
  with kes sc have k: "k < length (conn m' (tdim m, d) ! c0)" by simp
  with basic(2) show "conn m' (tdim m, d) ! c0 ! k < n" by (simp add: D)
  from k have "map (\<lambda>i. conn m' (d, 0) ! i) (conn m' (tdim m, d) ! c0) ! k
               = conn m' (d, 0) ! (conn m' (tdim m, d) ! c0 ! k)"
    by simp
  with m show "conn m' (d, 0) ! (conn m' (tdim m, d) ! c0 ! k) = sorted_candidates m d c0 ! k"
    by simp
  from basic(3) show "length (conn m' (d, 0)) = n" .
  from es sc kes show "\<exists>es. create_entities m d (conn m (tdim m, 0) ! c0) = Some es
              \<and> sorted_candidates m d c0 ! k = sort (es ! k)"
    by simp
qed

lemma candidate_vertices:
  assumes wf: "well_formed_cells m d" and c: "c < num_entities m (tdim m)"
    and t: "t \<in> set (sorted_candidates m d c)"
  shows "set t \<subseteq> set (conn m (tdim m, 0) ! c) \<and> t \<noteq> [] \<and> sorted t \<and> distinct t"
proof -
  from t obtain tup where tup: "tup \<in> set (cell_entities m d)"
    and r: "\<forall>i \<in> set tup. i < length (conn m (tdim m, 0) ! c)"
    and t': "t = sort (map (\<lambda>i. conn m (tdim m, 0) ! c ! i) tup)"
    by (auto simp: sorted_candidates_def create_entities_def split: if_splits)
  from wf tup have ne: "tup \<noteq> []"
    by (auto simp: well_formed_cells_def)
  from wf c t have dt: "distinct t" by (auto simp: well_formed_cells_def)
  from t' have "length t = length tup" by simp
  with ne have "t \<noteq> []" by auto
  moreover from t' r have "set t \<subseteq> set (conn m (tdim m, 0) ! c)" by auto
  moreover from t' have "sorted t" by simp
  ultimately show ?thesis using dt by simp
qed

lemma shared_found_from_adjacency:
  assumes c: "constructed m" and ok: "adjacency_ok m" and wf: "well_formed_cells m d"
    and run: "compute_connectivity g m (tdim m) (tdim m) = Some (Inr m1)"
  shows "shared_found m1 d"
  unfolding shared_found_def
proof (intro allI impI)
  fix c1 c0
  assume c1: "c1 < num_entities m1 (tdim m1)" and c0: "c0 < c1"
    and sh: "set (sorted_candidates m1 d c0) \<inter> set (sorted_candidates m1 d c1) \<noteq> {}"
  have e: "extends m m1" by (rule compute_connectivity_extends [OF run])
  have D: "tdim m1 = tdim m" by (rule extends_tdim [OF e])
  have N: "num_entities m1 (tdim m) = num_entities m (tdim m)"
    using c by (intro extends_num [OF e]) (simp add: constructed_def)
  from c1 c0 D N have b1: "c1 < num_entities m (tdim m)" and b0: "c0 < num_entities m (tdim m)"
    by simp_all
  from sh obtain t where t0: "t \<in> set (sorted_candidates m d c0)"
    and t1: "t \<in> set (sorted_candidates m d c1)"
    by (auto simp: sorted_candidates_extends [OF c e])
  from candidate_vertices [OF wf b0 t0] candidate_vertices [OF wf b1 t1]
  obtain v where "v \<in> set (conn m (tdim m, 0) ! c0)" "v \<in> set (conn m (tdim m, 0) ! c1)"
    by (cases t) auto
  then have "set (conn m (tdim m, 0) ! c0) \<inter> set (conn m (tdim m, 0) ! c1) \<noteq> {}" by blast
  from cell_adjacency [OF c ok run b1 b0 _ this] c0
  show "c0 \<in> set (conn m1 (tdim m1, tdim m1) ! c1)" by (simp add: D)
qed

text \<open>
  Claim C1, as the code has it. After \<open>compute_entities(d)\<close> on a constructed mesh, the
  entity recorded at slot \<open>k\<close> of cell \<open>c\<close> (in particular the entity first discovered
  there) has as its row of the incidence \<open>(d, 0)\<close> the tuple that the cell type yields for
  slot \<open>k\<close> of \<open>c\<close>, sorted ascending: the vertices of the canonical tuple, in the sorted
  order used for the lookup.
\<close>

theorem entity_vertices_are_sorted_candidates:
  assumes "compute_entities fuel m d = Some (Inr (n, m'))" and "num_entities m d = 0"
    and "constructed m"
    and "c < num_entities m (tdim m)" and "k < length (cell_entities m d)"
  shows "\<exists>entities. create_entities m d (conn m (tdim m, 0) ! c) = Some entities
           \<and> conn m' (d, 0) ! (conn m' (tdim m, d) ! c ! k) = sort (entities ! k)"
  using stored_vertices_of_slot(2,4) [OF assms] by auto

theorem entity_vertices_are_sorted_candidates_witness:
  "\<exists>n m'. compute_entities 4 flipped_triangle 1 = Some (Inr (n, m'))
     \<and> num_entities flipped_triangle 1 = 0 \<and> constructed flipped_triangle
     \<and> (0::nat) < num_entities flipped_triangle (tdim flipped_triangle)
     \<and> (0::nat) < length (cell_entities flipped_triangle 1)
     \<and> create_entities flipped_triangle 1 (conn flipped_triangle (tdim flipped_triangle, 0) ! 0)
         = Some [[2, 1], [0, 1], [0, 2]]
     \<and> conn m' (1, 0) ! (conn m' (tdim flipped_triangle, 1) ! 0 ! 0) = sort [2, 1]"
proof -
  have "case compute_entities 4 flipped_triangle 1 of Some (Inr r) \<Rightarrow> True | _ \<Rightarrow> False"
    by code_simp
  then obtain n m' where r: "compute_entities 4 flipped_triangle 1 = Some (Inr (n, m'))"
    by (auto split: option.splits sum.splits)
  have f: "num_entities flipped_triangle 1 = 0" and c: "constructed flipped_triangle"
    and c0: "(0::nat) < num_entities flipped_triangle (tdim flipped_triangle)"
    and k: "(0::nat) < length (cell_entities flipped_triangle 1)"
    by (simp_all add: flipped_triangle_def constructed_def conn_size_def triangle_def)
  have v: "create_entities flipped_triangle 1 (conn flipped_triangle (tdim flipped_triangle, 0) ! 0)
         = Some [[2, 1], [0, 1], [0, 2]]"
    by code_simp
  from entity_vertices_are_sorted_candidates [OF r f c c0 k] v
  have "conn m' (1, 0) ! (conn m' (tdim flipped_triangle, 1) ! 0 ! 0) = sort [2, 1]"
    by simp
  with r f c c0 k v show ?thesis by blast
qed

text \<open>
  The stored order is not the canonical local order. For the triangle with vertices
  0, 2, 1 the cell type yields the edges (2, 1), (0, 1), (0, 2); each is new, entity \<open>k\<close>
  being discovered at slot \<open>k\<close>, and the first is stored as (1, 2).
\<close>

theorem canonical_order_counterexample:
  "stored (compute_entities 4 flipped_triangle 1) (2, 1) = Some [[0, 1, 2]]
   \<and> stored (compute_entities 4 flipped_triangle 1) (1, 0) = Some [[1, 2], [0, 1], [0, 2]]
   \<and> create_entities flipped_triangle 1 (conn flipped_triangle (2, 0) ! 0)
       = Some [[2, 1], [0, 1], [0, 2]]
   \<and> stored (compute_entities 4 flipped_triangle 1) (1, 0)
       \<noteq> create_entities flipped_triangle 1 (conn flipped_triangle (2, 0) ! 0)"
  by code_simp

lemma well_formed_two_triangles: "well_formed_cells two_triangles 1"
  by (simp add: well_formed_cells_def two_triangles_def triangle_def sorted_candidates_def
      create_entities_def All_less_Suc numeral_2_eq_2)

text \<open>
  Claim C2, as the code has it. Take a mesh that holds its cells, its vertices and the
  incidence \<open>(D, 0)\<close>, in which the entities of dimension \<open>d\<close> are not yet computed, the
  candidate tuples of every cell are non-empty, repeat no vertex and are pairwise different
  once sorted, and the cell adjacency (\<open>(0, D)\<close> and \<open>(D, D)\<close>) is either not yet stored or
  complete. After \<open>compute_entities(d)\<close>, two local entities \<open>(c, k)\<close> and \<open>(c', k')\<close> carry
  the same entity index exactly when their sorted vertex tuples are equal; two different
  entities never have the same vertex set; and the returned count is the number of
  different sorted tuples over all cells and slots.
\<close>

theorem entities_identified_by_sorted_vertices:
  assumes run: "compute_entities fuel m d = Some (Inr (n, m'))" and fresh: "num_entities m d = 0"
    and c: "constructed m" and ok: "adjacency_ok m" and wf: "well_formed_cells m d"
  shows "(\<forall>c < num_entities m (tdim m). \<forall>c' < num_entities m (tdim m).
          \<forall>k < length (cell_entities m d). \<forall>k' < length (cell_entities m d).
            (conn m' (tdim m, d) ! c ! k = conn m' (tdim m, d) ! c' ! k')
            \<longleftrightarrow> (sorted_candidates m d c ! k = sorted_candidates m d c' ! k'))
         \<and> (\<forall>i < n. \<forall>j < n. i \<noteq> j \<longrightarrow> set (conn m' (d, 0) ! i) \<noteq> set (conn m' (d, 0) ! j))
         \<and> n = card (\<Union>c < num_entities m (tdim m). set (sorted_candidates m d c))"
proof -
  from run fresh c obtain g m1 where cc: "compute_connectivity g m (tdim m) (tdim m) = Some (Inr m1)"
    and b: "build_entities m1 d = Inr (n, m')"
    and e: "extends m m1" and D: "tdim m1 = tdim m"
    and N: "num_entities m1 (tdim m) = num_entities m (tdim m)" and d: "d \<noteq> 0"
    by (rule fresh_entities_built)
  have sc: "\<And>c. sorted_candidates m1 d c = sorted_candidates m d c"
    by (rule sorted_candidates_extends [OF c e])
  have "\<forall>c < num_entities m1 (tdim m1). distinct (sorted_candidates m1 d c)"
    using wf by (simp add: sc D N well_formed_cells_def)
  note full = build_entities_full [OF b d this shared_found_from_adjacency [OF c ok wf cc]]
  from full(2) have ev: "set (conn m' (d, 0)) = (\<Union>c < num_entities m (tdim m). set (sorted_candidates m d c))"
    by (simp add: sc D N)
  have len: "length (conn m' (d, 0)) = n"
    using build_entities_basic(3) [OF b d, of 0] c by (simp add: D N constructed_def)
  have one: "(conn m' (tdim m, d) ! c1 ! k = conn m' (tdim m, d) ! c2 ! k')
        \<longleftrightarrow> (sorted_candidates m d c1 ! k = sorted_candidates m d c2 ! k')"
    if c1: "c1 < num_entities m (tdim m)" and c2: "c2 < num_entities m (tdim m)"
      and k: "k < length (cell_entities m d)" and k': "k' < length (cell_entities m d)"
    for c1 c2 k k'
  proof -
    note s1 = stored_vertices_of_slot [OF run fresh c c1 k]
    note s2 = stored_vertices_of_slot [OF run fresh c c2 k']
    from s1(1) s2(1) len full(1)
    have "(conn m' (tdim m, d) ! c1 ! k = conn m' (tdim m, d) ! c2 ! k')
          \<longleftrightarrow> (conn m' (d, 0) ! (conn m' (tdim m, d) ! c1 ! k)
               = conn m' (d, 0) ! (conn m' (tdim m, d) ! c2 ! k'))"
      by (simp add: nth_eq_iff_index_eq)
    with s1(2) s2(2) show ?thesis by simp
  qed
  have two: "set (conn m' (d, 0) ! i) \<noteq> set (conn m' (d, 0) ! j)"
    if i: "i < n" and j: "j < n" and ij: "i \<noteq> j" for i j
  proof
    assume eq: "set (conn m' (d, 0) ! i) = set (conn m' (d, 0) ! j)"
    have good: "sorted t \<and> distinct t" if "t \<in> set (conn m' (d, 0))" for t
    proof -
      from that ev obtain c0 where "c0 < num_entities m (tdim m)" "t \<in> set (sorted_candidates m d c0)"
        by auto
      from candidate_vertices [OF wf this] show ?thesis by simp
    qed
    from i j len have "conn m' (d, 0) ! i \<in> set (conn m' (d, 0))"
      "conn m' (d, 0) ! j \<in> set (conn m' (d, 0))"
      by simp_all
    with good eq have "conn m' (d, 0) ! i = conn m' (d, 0) ! j"
      by (intro sorted_distinct_set_unique) auto
    with full(1) i j len have "i = j" by (simp add: nth_eq_iff_index_eq)
    with ij show False by simp
  qed
  have three: "n = card (\<Union>c < num_entities m (tdim m). set (sorted_candidates m d c))"
    using distinct_card [OF full(1)] ev len by simp
  from one two three show ?thesis by blast
qed

theorem entities_identified_by_sorted_vertices_witness:
  "\<exists>n m'. compute_entities 4 two_triangles 1 = Some (Inr (n, m'))
     \<and> num_entities two_triangles 1 = 0 \<and> constructed two_triangles
     \<and> adjacency_ok two_triangles \<and> well_formed_cells two_triangles 1
     \<and> n = 5 \<and> conn m' (2, 1) = [[0, 1, 2], [3, 0, 4]]
     \<and> n = card (\<Union>c < num_entities two_triangles (tdim two_triangles).
                   set (sorted_candidates two_triangles 1 c))"
proof -
  have "case compute_entities 4 two_triangles 1 of
          Some (Inr r) \<Rightarrow> fst r = 5 \<and> conn (snd r) (2, 1) = [[0, 1, 2], [3, 0, 4]]
        | _ \<Rightarrow> False"
    by code_simp
  then obtain n m' where r: "compute_entities 4 two_triangles 1 = Some (Inr (n, m'))"
    and n: "n = 5" and ce: "conn m' (2, 1) = [[0, 1, 2], [3, 0, 4]]"
    by (auto split: option.splits sum.splits)
  have f: "num_entities two_triangles 1 = 0" and c: "constructed two_triangles"
    and a: "adjacency_ok two_triangles"
    by (simp_all add: two_triangles_def constructed_def conn_size_def adjacency_ok_def)
  note w = well_formed_two_triangles
  from entities_identified_by_sorted_vertices [OF r f c a w] r f c a w n ce
  show ?thesis by blast
qed

text \<open>
  Without these conditions the identification fails. The lookup searches the cells listed
  in the adjacency row of the current cell that come before it, never the current cell
  itself: for the triangle with vertices 0, 1, 1 the slots 1 and 2 both have the sorted
  tuple (0, 1) and still get the indices 1 and 2, so that three entities are counted for two
  different tuples, and the entities 1 and 2 have the same vertex set. And the lookup
  trusts an adjacency that is already stored: when the stored row of the second of the two
  triangles is empty, its slot 1 gets the new index 4 although slot 0 of the first cell has
  the same sorted tuple (1, 2) and the index 0, and six entities are counted for five
  different tuples.
\<close>

theorem repeated_tuple_counterexample:
  "sorted_candidates repeated_vertex_triangle 1 0 = [[1, 1], [0, 1], [0, 1]]
   \<and> stored (compute_entities 4 repeated_vertex_triangle 1) (2, 1) = Some [[0, 1, 2]]
   \<and> stored (compute_entities 4 repeated_vertex_triangle 1) (1, 0) = Some [[1, 1], [0, 1], [0, 1]]
   \<and> counted (compute_entities 4 repeated_vertex_triangle 1) = Some 3
   \<and> length (remdups (sorted_candidates repeated_vertex_triangle 1 0)) = 2
   \<and> sorted_candidates isolated_second_cell 1 0 = [[1, 2], [0, 2], [0, 1]]
   \<and> sorted_candidates isolated_second_cell 1 1 = [[2, 3], [1, 2], [1, 3]]
   \<and> stored (compute_entities 4 isolated_second_cell 1) (2, 1) = Some [[0, 1, 2], [3, 4, 5]]
   \<and> counted (compute_entities 4 isolated_second_cell 1) = Some 6
   \<and> length (remdups (sorted_candidates isolated_second_cell 1 0
                        @ sorted_candidates isolated_second_cell 1 1)) = 5"
  by code_simp

section \<open>The choice of strategy\<close>



lemma cc_cells_cells_frame:
  assumes c: "constructed m" and run: "compute_connectivity f m (tdim m) (tdim m) = Some (Inr m1)"
    and k: "k \<noteq> (tdim m, tdim m)" "k \<noteq> (0, tdim m)"
  shows "conn m1 k = conn m k"
  using cc_cells_cells_cases [OF c run]
proof (elim disjE conjE exE)
  assume "m1 = m"
  then show ?thesis by simp
next
  fix md
  assume int: "compute_from_intersection md (tdim m) (tdim m) 0 = Inr m1" and "md = m"
  with compute_from_intersection_frame [OF int] k(1) show ?thesis by blast
next
  fix md
  assume int: "compute_from_intersection md (tdim m) (tdim m) 0 = Inr m1"
    and t: "compute_from_transpose m 0 (tdim m) = Inr md"
  from compute_from_intersection_frame [OF int] k(1) have "conn m1 k = conn md k" by blast
  moreover from compute_from_transpose_frame [OF t] k(2) have "conn md k = conn m k" by blast
  ultimately show ?thesis by simp
qed

lemma ensure_entities_frame:
  assumes c: "constructed m" and e: "ensure_entities fuel m d = Some (Inr ma)"
    and k: "k \<noteq> (tdim m, tdim m)" "k \<noteq> (0, tdim m)" "k \<noteq> (tdim m, d)" "k \<noteq> (d, 0)"
  shows "conn ma k = conn m k"
proof (cases "num_entities m d = 0")
  case False
  with e show ?thesis by (simp add: ensure_entities_def)
next
  case True
  with e obtain r where r: "compute_entities fuel m d = Some (Inr r)" and ma: "ma = snd r"
    by (auto simp: ensure_entities_def elim!: and_then_Inr)
  from r True c obtain g m1 where cc: "compute_connectivity g m (tdim m) (tdim m) = Some (Inr m1)"
    and b: "build_entities m1 d = Inr (fst r, snd r)" and D: "tdim m1 = tdim m"
    by (cases r) (auto elim: fresh_entities_built)
  from build_entities_Inr [OF b] have
    "\<forall>k. k \<noteq> (tdim m1, d) \<and> k \<noteq> (d, 0) \<longrightarrow> conn (snd r) k = conn m1 k"
    by blast
  with k D have "conn ma k = conn m1 k"
    unfolding ma by (cases k) auto
  moreover from cc_cells_cells_frame [OF c cc k(1,2)] have "conn m1 k = conn m k" .
  ultimately show ?thesis by simp
qed

text \<open>
  Claim C9. On a constructed mesh, after a cache miss of \<open>compute_connectivity(d0, d1)\<close> has
  ensured the entities of both dimensions: if both counts are zero the call returns at
  once and the store \<open>(d0, d1)\<close> is still absent; if at least one count is not zero the
  computation goes on to the second cache test and the choice of strategy.
\<close>

theorem no_entities_no_store:
  assumes c: "constructed m" and miss: "conn_size (conn m (d0, d1)) = 0"
    and e0: "ensure_entities fuel m d0 = Some (Inr ma)"
    and e1: "ensure_entities fuel ma d1 = Some (Inr mb)"
  shows "(num_entities mb d0 = 0 \<and> num_entities mb d1 = 0 \<longrightarrow>
            compute_connectivity (Suc fuel) m d0 d1 = Some (Inr mb)
            \<and> conn_size (conn mb (d0, d1)) = 0)
         \<and> (\<not> (num_entities mb d0 = 0 \<and> num_entities mb d1 = 0) \<longrightarrow>
            compute_connectivity (Suc fuel) m d0 d1
              = (if conn_size (conn mb (d0, d1)) > 0 then Some (Inr mb)
                 else dispatch fuel mb d0 d1))"
proof (intro conjI impI)
  assume z: "num_entities mb d0 = 0 \<and> num_entities mb d1 = 0"
  from miss e0 e1 z show "compute_connectivity (Suc fuel) m d0 d1 = Some (Inr mb)"
    by (simp add: compute_connectivity_Suc and_then_def)
  have xa: "extends m ma" by (rule ensure_entities_extends [OF e0])
  have xb: "extends ma mb" by (rule ensure_entities_extends [OF e1])
  have ca: "constructed ma" by (rule constructed_extends [OF c xa])
  have cb: "constructed mb" by (rule constructed_extends [OF ca xb])
  have t: "tdim ma = tdim m" "tdim mb = tdim m"
    using extends_tdim [OF xa] extends_tdim [OF xb] by simp_all
  have p: "0 < num_entities mb 0" "0 < num_entities mb (tdim m)"
    using cb t by (simp_all add: constructed_def)
  have d: "d0 \<noteq> 0" "d0 \<noteq> tdim m" "d1 \<noteq> 0" "d1 \<noteq> tdim m"
    using p z by (intro notI, simp)+
  from d have "conn ma (d0, d1) = conn m (d0, d1)"
    by (intro ensure_entities_frame [OF c e0]) auto
  moreover from d t have "conn mb (d0, d1) = conn ma (d0, d1)"
    by (intro ensure_entities_frame [OF ca e1]) auto
  ultimately show "conn_size (conn mb (d0, d1)) = 0" using miss by simp
next
  assume "\<not> (num_entities mb d0 = 0 \<and> num_entities mb d1 = 0)"
  moreover have "compute_connectivity (Suc fuel) m d0 d1
          = (if num_entities mb d0 = 0 \<and> num_entities mb d1 = 0 then Some (Inr mb)
             else if conn_size (conn mb (d0, d1)) > 0 then Some (Inr mb)
             else dispatch fuel mb d0 d1)"
    using miss e0 e1 by (simp add: compute_connectivity_Suc and_then_def)
  ultimately show "compute_connectivity (Suc fuel) m d0 d1
              = (if conn_size (conn mb (d0, d1)) > 0 then Some (Inr mb)
                 else dispatch fuel mb d0 d1)"
    by (simp only: if_False)
qed

theorem no_entities_no_store_witness:
  "(\<exists>ma mb. constructed bare_tetrahedron \<and> conn_size (conn bare_tetrahedron (1, 2)) = 0
       \<and> ensure_entities 4 bare_tetrahedron 1 = Some (Inr ma)
       \<and> ensure_entities 4 ma 2 = Some (Inr mb)
       \<and> num_entities mb 1 = 0 \<and> num_entities mb 2 = 0
       \<and> compute_connectivity (Suc 4) bare_tetrahedron 1 2 = Some (Inr mb)
       \<and> conn_size (conn mb (1, 2)) = 0)
   \<and> (constructed two_triangles \<and> conn_size (conn two_triangles (0, 2)) = 0
       \<and> ensure_entities 1 two_triangles 0 = Some (Inr two_triangles)
       \<and> ensure_entities 1 two_triangles 2 = Some (Inr two_triangles)
       \<and> \<not> (num_entities two_triangles 0 = 0 \<and> num_entities two_triangles 2 = 0)
       \<and> compute_connectivity (Suc 1) two_triangles 0 2 = dispatch 1 two_triangles 0 2)"
proof -
  have c: "constructed bare_tetrahedron" and miss: "conn_size (conn bare_tetrahedron (1, 2)) = 0"
    by (simp_all add: bare_tetrahedron_def constructed_def conn_size_def)
  have "case and_then (ensure_entities 4 bare_tetrahedron 1) (\<lambda>ma. ensure_entities 4 ma 2) of
          Some (Inr mb) \<Rightarrow> num_entities mb 1 = 0 \<and> num_entities mb 2 = 0
        | _ \<Rightarrow> False"
    by code_simp
  then obtain mb where
    both: "and_then (ensure_entities 4 bare_tetrahedron 1) (\<lambda>ma. ensure_entities 4 ma 2)
           = Some (Inr mb)"
    and z: "num_entities mb 1 = 0 \<and> num_entities mb 2 = 0"
    by (auto split: option.splits sum.splits)
  from both obtain ma where e0: "ensure_entities 4 bare_tetrahedron 1 = Some (Inr ma)"
    and e1: "ensure_entities 4 ma 2 = Some (Inr mb)"
    by (rule and_then_Inr)
  from no_entities_no_store [OF c miss e0 e1] z
  have r: "compute_connectivity (Suc 4) bare_tetrahedron 1 2 = Some (Inr mb)"
    "conn_size (conn mb (1, 2)) = 0"
    by simp_all
  have c2: "constructed two_triangles" and miss2: "conn_size (conn two_triangles (0, 2)) = 0"
    and n2: "\<not> (num_entities two_triangles 0 = 0 \<and> num_entities two_triangles 2 = 0)"
    by (simp_all add: two_triangles_def constructed_def conn_size_def)
  have f0: "ensure_entities 1 two_triangles 0 = Some (Inr two_triangles)"
    and f2: "ensure_entities 1 two_triangles 2 = Some (Inr two_triangles)"
    by (simp_all add: ensure_entities_def two_triangles_def)
  from no_entities_no_store [OF c2 miss2 f0 f2] n2 miss2
  have p: "compute_connectivity (Suc 1) two_triangles 0 2 = dispatch 1 two_triangles 0 2"
    by simp
  from c miss e0 e1 z r have "\<exists>ma mb. constructed bare_tetrahedron
       \<and> conn_size (conn bare_tetrahedron (1, 2)) = 0
       \<and> ensure_entities 4 bare_tetrahedron 1 = Some (Inr ma)
       \<and> ensure_entities 4 ma 2 = Some (Inr mb)
       \<and> num_entities mb 1 = 0 \<and> num_entities mb 2 = 0
       \<and> compute_connectivity (Suc 4) bare_tetrahedron 1 2 = Some (Inr mb)
       \<and> conn_size (conn mb (1, 2)) = 0"
    by (intro exI [of _ ma] exI [of _ mb]) simp
  with c2 miss2 f0 f2 n2 p show ?thesis by simp
qed

end
